theory Spec2Isabelle
  imports Main "HOL-Library.Monad_Syntax"
begin

section \<open>Storage model\<close>

text \<open>
  An array obtained from the allocator is a list of slots, one per element of capacity.
  A slot is \<open>None\<close> while it is raw memory and \<open>Some x\<close> while it holds a constructed
  element. A pointer into an array is the offset from its beginning. The three cursors
  \<open>m_data\<close>, \<open>m_size\<close>, \<open>m_capacity\<close> of \<open>vector_base_members\<close> become the array itself,
  the offset of the end of initialised storage, and the length of the array; the null
  state (all three cursors \<open>NULL\<close>) is the empty array with offset 0.

  Every function that touches memory returns an option: \<open>None\<close> records undefined
  behaviour of the C++ (an access outside the array, reading or assigning to or destroying
  raw memory). Allocation is assumed to succeed. A moved-from element stays constructed
  and keeps its value.
\<close>

type_synonym 'a storage = "'a option list"

record 'a vector_base =
  m_data :: "'a storage"
  m_size :: nat

text \<open>The compile-time facts about the element type that the algorithms branch on.\<close>

record value_traits =
  value_has_trivial_destroy :: bool
  use_simple_insert :: bool

text \<open>An argument passed by reference is either outside the vector or one of its elements.\<close>

datatype 'a reference = Val 'a | Elem nat

declare Option.bind_cong [fundef_cong]

subsection \<open>Allocator primitives (array_container_base)\<close>

definition allocate :: "nat \<Rightarrow> 'a storage" where
  "allocate sz = replicate sz None"

definition construct :: "'a storage \<Rightarrow> nat \<Rightarrow> 'a \<Rightarrow> 'a storage option" where
  "construct a p x = (if p < length a then Some (a[p := Some x]) else None)"

definition deref :: "'a storage \<Rightarrow> nat \<Rightarrow> 'a option" where
  "deref a p = (if p < length a then a ! p else None)"

definition assign :: "'a storage \<Rightarrow> nat \<Rightarrow> 'a \<Rightarrow> 'a storage option" where
  "assign a p x = (if p < length a \<and> a ! p \<noteq> None then Some (a[p := Some x]) else None)"

definition destroy :: "'a storage \<Rightarrow> nat \<Rightarrow> 'a storage option" where
  "destroy a p = (if p < length a \<and> a ! p \<noteq> None then Some (a[p := None]) else None)"

text \<open>\<open>destroy(first, last)\<close>: skipped altogether for a trivially destructible type.\<close>

function destroy_loop :: "'a storage \<Rightarrow> nat \<Rightarrow> nat \<Rightarrow> 'a storage option" where
  "destroy_loop a first lst =
     (if first = lst then Some a
      else do { a' \<leftarrow> destroy a first; destroy_loop a' (first + 1) lst })"
  by pat_completeness auto
termination
  by (relation "measure (\<lambda>(a, first, lst). length a - first)")
     (auto simp: destroy_def split: if_splits)

declare destroy_loop.simps [simp del]

definition destroy_range :: "value_traits \<Rightarrow> 'a storage \<Rightarrow> nat \<Rightarrow> nat \<Rightarrow> 'a storage option" where
  "destroy_range T a first lst =
     (if \<not> value_has_trivial_destroy T then destroy_loop a first lst else Some a)"

text \<open>\<open>move_construct_from_range(first1, first2, last2)\<close> with the source range in
  another array \<open>src\<close>. Returns the end of the destination range and the destination.\<close>

function move_construct_from_range ::
  "'a storage \<Rightarrow> nat \<Rightarrow> 'a storage \<Rightarrow> nat \<Rightarrow> nat \<Rightarrow> (nat \<times> 'a storage) option" where
  "move_construct_from_range dst first1 src first2 last2 =
     (if first2 = last2 then Some (first1, dst)
      else do {
        x \<leftarrow> deref src first2;
        dst' \<leftarrow> construct dst first1 x;
        move_construct_from_range dst' (first1 + 1) src (first2 + 1) last2
      })"
  by pat_completeness auto
termination
  by (relation "measure (\<lambda>(dst, first1, src, first2, last2). length src - first2)")
     (auto simp: deref_def split: if_splits)

declare move_construct_from_range.simps [simp del]

subsection \<open>Member helpers (vector_base)\<close>

definition size_v :: "'a vector_base \<Rightarrow> nat" where
  "size_v v = m_size v"

definition capacity :: "'a vector_base \<Rightarrow> nat" where
  "capacity v = length (m_data v)"

definition available :: "'a vector_base \<Rightarrow> nat" where
  "available v = length (m_data v) - m_size v"

definition empty_v :: "'a vector_base \<Rightarrow> bool" where
  "empty_v v = (m_size v = 0)"

definition full :: "'a vector_base \<Rightarrow> bool" where
  "full v = (m_size v = length (m_data v))"

definition iend :: "'a vector_base \<Rightarrow> nat" where
  "iend v = m_size v"

definition reset :: "'a vector_base" where
  "reset = \<lparr>m_data = [], m_size = 0\<rparr>"

definition reset3 :: "'a storage \<Rightarrow> nat \<Rightarrow> 'a vector_base" where
  "reset3 d s = \<lparr>m_data = d, m_size = s\<rparr>"

text \<open>\<open>size_type\<close> is taken to be 64 bits wide. A sum with a count that the caller
  passes (in \<open>many\<close>, \<open>few\<close> and \<open>make_gap_n\<close>), the doubling of such a sum and the
  decrement of a count are written with their wrap-around; capacities and sizes of arrays
  that exist stay far below \<open>2 ^ 63\<close>, so doubling one is written without.\<close>

definition SIZE_MAX :: nat where
  "SIZE_MAX = 2 ^ 64 - 1"

definition size_add :: "nat \<Rightarrow> nat \<Rightarrow> nat" where
  "size_add a b = (a + b) mod 2 ^ 64"

definition size_dec :: "nat \<Rightarrow> nat" where
  "size_dec n = (if n = 0 then SIZE_MAX else n - 1)"

definition many :: "'a vector_base \<Rightarrow> nat \<Rightarrow> bool" where
  "many v sz = (size_add (size_v v) sz > capacity v)"

definition few :: "'a vector_base \<Rightarrow> nat \<Rightarrow> bool" where
  "few v sz = (size_add (size_v v) sz \<le> capacity v)"

subsection \<open>Growth policy and reallocation\<close>

definition next_capacity :: "nat \<Rightarrow> nat" where
  "next_capacity sz = (if sz \<noteq> 0 then sz * 2 else 2)"

definition best_capacity :: "'a vector_base \<Rightarrow> nat \<Rightarrow> nat" where
  "best_capacity v needed = max needed (next_capacity (capacity v))"

definition really_reallocate ::
  "value_traits \<Rightarrow> 'a vector_base \<Rightarrow> nat \<Rightarrow> nat \<Rightarrow> 'a vector_base option" where
  "really_reallocate T v oldCapacity newCapacity =
     (let newData = allocate newCapacity in
      if m_data v \<noteq> [] then do {
        (newSize, newData') \<leftarrow> move_construct_from_range newData 0 (m_data v) 0 (iend v);
        _ \<leftarrow> destroy_range T (m_data v) 0 (iend v);
        Some (reset3 newData' newSize)
      } else Some (reset3 newData 0))"

definition reallocate :: "value_traits \<Rightarrow> 'a vector_base \<Rightarrow> 'a vector_base option" where
  "reallocate T v = really_reallocate T v (capacity v) (next_capacity (capacity v))"

definition reallocate_to ::
  "value_traits \<Rightarrow> 'a vector_base \<Rightarrow> nat \<Rightarrow> 'a vector_base option" where
  "reallocate_to T v newCapacity =
     (let oldCapacity = capacity v in
      if newCapacity > oldCapacity then really_reallocate T v oldCapacity newCapacity
      else Some v)"

subsection \<open>Push and pop\<close>

definition read_ref :: "'a vector_base \<Rightarrow> 'a reference \<Rightarrow> 'a option" where
  "read_ref v r = (case r of Val x \<Rightarrow> Some x | Elem i \<Rightarrow> deref (m_data v) i)"

definition emplace_back_internal ::
  "value_traits \<Rightarrow> 'a vector_base \<Rightarrow> 'a reference \<Rightarrow> (nat \<times> 'a vector_base) option" where
  "emplace_back_internal T v args =
     (if \<not> full v then do {
        let position = iend v;
        x \<leftarrow> read_ref v args;
        d \<leftarrow> construct (m_data v) position x;
        Some (position, v\<lparr>m_data := d, m_size := m_size v + 1\<rparr>)
      } else if use_simple_insert T then do {
        temp \<leftarrow> read_ref v args;
        v' \<leftarrow> reallocate T v;
        let position = iend v';
        d \<leftarrow> construct (m_data v') position temp;
        Some (position, v'\<lparr>m_data := d, m_size := m_size v' + 1\<rparr>)
      } else do {
        let newCapacity = next_capacity (capacity v);
        let newData = allocate newCapacity;
        let newPosition = size_v v;
        x \<leftarrow> read_ref v args;
        newData1 \<leftarrow> construct newData newPosition x;
        (_, newData2) \<leftarrow> move_construct_from_range newData1 0 (m_data v) 0 (iend v);
        _ \<leftarrow> destroy_range T (m_data v) 0 (iend v);
        Some (newPosition, reset3 newData2 (newPosition + 1))
      })"

definition push_back ::
  "value_traits \<Rightarrow> 'a vector_base \<Rightarrow> 'a reference \<Rightarrow> 'a vector_base option" where
  "push_back T v val = map_option snd (emplace_back_internal T v val)"

definition pop_back :: "'a vector_base \<Rightarrow> 'a vector_base option" where
  "pop_back v =
     (if \<not> empty_v v then do {
        let v' = v\<lparr>m_size := m_size v - 1\<rparr>;
        d \<leftarrow> destroy (m_data v') (iend v');
        Some (v'\<lparr>m_data := d\<rparr>)
      } else Some v)"

section \<open>Abstraction\<close>

text \<open>The element sequence of a vector, and the representation invariant: the end of
  initialised storage lies inside the array and every slot before it is constructed.\<close>

definition contents :: "'a vector_base \<Rightarrow> 'a list" where
  "contents v = map the (take (m_size v) (m_data v))"

definition wf_vector :: "'a vector_base \<Rightarrow> bool" where
  "wf_vector v = (m_size v \<le> length (m_data v) \<and>
          list_all (\<lambda>s. s \<noteq> None) (take (m_size v) (m_data v)))"

section \<open>Array lemmas\<close>

definition overwrite :: "'a list \<Rightarrow> nat \<Rightarrow> 'a list \<Rightarrow> 'a list" where
  "overwrite dst p ys = take p dst @ ys @ drop (p + length ys) dst"

lemma length_overwrite [simp]:
  "p + length ys \<le> length dst \<Longrightarrow> length (overwrite dst p ys) = length dst"
  by (simp add: overwrite_def)

lemma overwrite_Nil [simp]: "overwrite dst p [] = dst"
  by (simp add: overwrite_def)

lemma overwrite_Cons:
  "p < length dst \<Longrightarrow> overwrite (dst[p := y]) (Suc p) ys = overwrite dst p (y # ys)"
  by (simp add: overwrite_def take_Suc_conv_app_nth)

lemma nth_overwrite:
  "p + length ys \<le> length dst \<Longrightarrow> i < length dst \<Longrightarrow>
   overwrite dst p ys ! i =
     (if i < p then dst ! i else if i < p + length ys then ys ! (i - p) else dst ! i)"
  by (auto simp: overwrite_def nth_append)

lemma take_overwrite:
  "p + length ys \<le> length dst \<Longrightarrow> take (p + length ys) (overwrite dst p ys) = take p dst @ ys"
  by (simp add: overwrite_def)

lemma take_drop_step:
  "f < l \<Longrightarrow> l \<le> length src \<Longrightarrow>
   take (l - f) (drop f src) = src ! f # take (l - Suc f) (drop (Suc f) src)"
  by (metis Cons_nth_drop_Suc Suc_diff_Suc order_less_le_trans take_Suc_Cons)

lemma move_construct_from_range_eq:
  "first2 \<le> last2 \<Longrightarrow> last2 \<le> length src \<Longrightarrow>
   \<forall>i. first2 \<le> i \<and> i < last2 \<longrightarrow> src ! i \<noteq> None \<Longrightarrow>
   first1 + (last2 - first2) \<le> length dst \<Longrightarrow>
   move_construct_from_range dst first1 src first2 last2 =
     Some (first1 + (last2 - first2),
           overwrite dst first1 (take (last2 - first2) (drop first2 src)))"
proof (induction dst first1 src first2 last2 rule: move_construct_from_range.induct)
  case (1 dst first1 src first2 last2)
  show ?case
  proof (cases "first2 = last2")
    case True
    then show ?thesis by (simp add: move_construct_from_range.simps)
  next
    case False
    with 1 have lt: "first2 < last2" by simp
    then obtain x where x: "src ! first2 = Some x" using 1(4) by auto
    have d: "deref src first2 = Some x" using lt 1(3) x by (simp add: deref_def)
    have fl: "first1 < length dst" using lt 1(5) by simp
    have c: "construct dst first1 x = Some (dst[first1 := Some x])"
      using fl by (simp add: construct_def)
    have ih: "move_construct_from_range (dst[first1 := Some x]) (Suc first1) src (Suc first2) last2 =
      Some (Suc first1 + (last2 - Suc first2),
            overwrite (dst[first1 := Some x]) (Suc first1)
              (take (last2 - Suc first2) (drop (Suc first2) src)))"
      using 1(1)[OF False d c] lt 1 by simp
    have ar: "Suc first1 + (last2 - Suc first2) = first1 + (last2 - first2)" using lt by simp
    show ?thesis
      apply (subst move_construct_from_range.simps)
      apply (simp add: d c ih False)
      apply (simp add: overwrite_Cons[OF fl] take_drop_step[OF lt 1(3)] x ar)
      using lt by simp
  qed
qed

lemma destroy_loop_ok:
  "first \<le> lst \<Longrightarrow> lst \<le> length a \<Longrightarrow> \<forall>i. first \<le> i \<and> i < lst \<longrightarrow> a ! i \<noteq> None \<Longrightarrow>
   destroy_loop a first lst = Some (overwrite a first (replicate (lst - first) None))"
proof (induction a first lst rule: destroy_loop.induct)
  case (1 a first lst)
  show ?case
  proof (cases "first = lst")
    case True
    then show ?thesis by (simp add: destroy_loop.simps)
  next
    case False
    with 1 have lt: "first < lst" by simp
    have fl: "first < length a" using lt 1 by simp
    have d: "destroy a first = Some (a[first := None])" using fl lt 1(4) by (simp add: destroy_def)
    have ih: "destroy_loop (a[first := None]) (Suc first) lst =
        Some (overwrite (a[first := None]) (Suc first) (replicate (lst - Suc first) None))"
      using 1(1)[OF False d] lt 1 by simp
    have r: "replicate (lst - first) None = (None :: 'a option) # replicate (lst - Suc first) None"
      using lt by (metis Suc_diff_Suc replicate_Suc)
    show ?thesis
      apply (subst destroy_loop.simps)
      apply (simp add: d ih False)
      by (simp add: overwrite_Cons[OF fl] r)
  qed
qed

lemma destroy_range_ok:
  "first \<le> lst \<Longrightarrow> lst \<le> length a \<Longrightarrow> \<forall>i. first \<le> i \<and> i < lst \<longrightarrow> a ! i \<noteq> None \<Longrightarrow>
   \<exists>a'. destroy_range T a first lst = Some a' \<and> length a' = length a \<and> take first a' = take first a"
  by (simp add: destroy_range_def destroy_loop_ok overwrite_def)

lemma wf_vector_iff:
  "wf_vector v = (m_size v \<le> length (m_data v) \<and> (\<forall>i < m_size v. m_data v ! i \<noteq> None))"
  by (auto simp: wf_vector_def list_all_length)

lemma really_reallocate_ok:
  assumes "wf_vector v" "m_size v \<le> newCapacity"
  shows "\<exists>v'. really_reallocate T v oldCapacity newCapacity = Some v' \<and> wf_vector v' \<and>
           capacity v' = newCapacity \<and> m_size v' = m_size v \<and> contents v' = contents v \<and>
           (\<forall>i. m_size v \<le> i \<and> i < newCapacity \<longrightarrow> m_data v' ! i = None)"
proof (cases "m_data v = []")
  case True
  then have "m_size v = 0" using assms(1) by (simp add: wf_vector_iff)
  then show ?thesis using True
    by (simp add: really_reallocate_def reset3_def wf_vector_iff capacity_def contents_def allocate_def)
next
  case False
  let ?n = "m_size v"
  have mv: "move_construct_from_range (allocate newCapacity) 0 (m_data v) 0 ?n =
      Some (?n, overwrite (allocate newCapacity) 0 (take ?n (m_data v)))"
    using move_construct_from_range_eq[of 0 ?n "m_data v" 0 "allocate newCapacity"] assms
    by (simp add: wf_vector_iff allocate_def)
  obtain a' where d: "destroy_range T (m_data v) 0 ?n = Some a'"
    using destroy_range_ok[of 0 ?n "m_data v" T] assms by (auto simp: wf_vector_iff)
  have len: "length (take ?n (m_data v)) = ?n" using assms by (simp add: wf_vector_iff)
  have "really_reallocate T v oldCapacity newCapacity =
          Some (reset3 (overwrite (allocate newCapacity) 0 (take ?n (m_data v))) ?n)"
    using False by (simp add: really_reallocate_def iend_def mv d)
  moreover have "overwrite (allocate newCapacity) 0 (take ?n (m_data v)) =
          take ?n (m_data v) @ replicate (newCapacity - ?n) None"
    using len by (simp add: overwrite_def allocate_def)
  ultimately show ?thesis
    using assms len
    by (auto simp: reset3_def capacity_def contents_def wf_vector_iff nth_append)
qed

lemma next_capacity_gt: "c < next_capacity c"
  by (simp add: next_capacity_def)

lemma contents_snoc:
  "n < length d \<Longrightarrow> map the (take (Suc n) (d[n := Some x])) = map the (take n d) @ [x]"
  by (simp add: take_Suc_conv_app_nth)

lemma emplace_back_internal_ok:
  assumes "wf_vector v" "read_ref v args = Some x"
  shows "\<exists>v'. emplace_back_internal T v args = Some (m_size v, v') \<and> wf_vector v' \<and>
           m_size v' = m_size v + 1 \<and> contents v' = contents v @ [x] \<and>
           capacity v' = (if full v then next_capacity (capacity v) else capacity v)"
proof -
  let ?n = "m_size v"
  consider (room) "\<not> full v" | (simple) "full v" "use_simple_insert T"
    | (complex) "full v" "\<not> use_simple_insert T" by blast
  then show ?thesis
  proof cases
    case room
    then have lt: "?n < length (m_data v)" using assms(1) by (simp add: full_def wf_vector_iff)
    show ?thesis
      using room lt assms
      by (auto simp: emplace_back_internal_def iend_def construct_def wf_vector_iff contents_def
          capacity_def contents_snoc nth_list_update Let_def less_Suc_eq)
  next
    case simple
    have le: "?n \<le> next_capacity (capacity v)"
      using simple(1) next_capacity_gt[of "capacity v"] by (simp add: full_def capacity_def)
    obtain v1 where r: "reallocate T v = Some v1" and w1: "wf_vector v1"
      and c1: "capacity v1 = next_capacity (capacity v)" and s1: "m_size v1 = ?n"
      and k1: "contents v1 = contents v"
      using really_reallocate_ok[OF assms(1) le, of T "capacity v"]
      by (auto simp: reallocate_def)
    have lt: "?n < length (m_data v1)"
      using c1 simple(1) next_capacity_gt[of "capacity v"] by (simp add: full_def capacity_def)
    show ?thesis
      using simple lt assms(2) w1 s1 k1 c1
      by (auto simp: emplace_back_internal_def r iend_def construct_def wf_vector_iff contents_def
          capacity_def contents_snoc nth_list_update Let_def less_Suc_eq)
  next
    case complex
    let ?c = "next_capacity (capacity v)"
    have lt: "?n < ?c"
      using complex(1) next_capacity_gt[of "capacity v"] by (simp add: full_def capacity_def)
    let ?d1 = "(allocate ?c)[?n := Some x]"
    have c: "construct (allocate ?c) ?n x = Some ?d1"
      using lt by (simp add: construct_def allocate_def)
    have mv: "move_construct_from_range ?d1 0 (m_data v) 0 ?n =
        Some (?n, overwrite ?d1 0 (take ?n (m_data v)))"
      using move_construct_from_range_eq[of 0 ?n "m_data v" 0 ?d1] assms(1) lt
      by (simp add: wf_vector_iff allocate_def)
    obtain a' where d: "destroy_range T (m_data v) 0 ?n = Some a'"
      using destroy_range_ok[of 0 ?n "m_data v" T] assms(1) by (auto simp: wf_vector_iff)
    have len: "length (take ?n (m_data v)) = ?n" using assms(1) by (simp add: wf_vector_iff)
    have e: "emplace_back_internal T v args =
        Some (?n, reset3 (overwrite ?d1 0 (take ?n (m_data v))) (?n + 1))"
      using complex assms(2) by (simp add: emplace_back_internal_def size_v_def iend_def c mv d Let_def)
    have o: "overwrite ?d1 0 (take ?n (m_data v)) =
        take ?n (m_data v) @ Some x # replicate (?c - Suc ?n) None"
      using len lt by (simp add: overwrite_def allocate_def drop_update_cancel
          flip: replicate_Suc Cons_nth_drop_Suc upd_conv_take_nth_drop)
    have e': "emplace_back_internal T v args =
        Some (?n, reset3 (take ?n (m_data v) @ Some x # replicate (?c - Suc ?n) None) (?n + 1))"
      using e o by simp
    show ?thesis
      using complex lt len assms(1)
      by (auto simp: e' reset3_def wf_vector_iff contents_def capacity_def nth_append less_Suc_eq)
  qed
qed

section \<open>Growth policy and push_back\<close>

text \<open>
  C4. \<open>next_capacity(c)\<close> is 2 for \<open>c = 0\<close> and \<open>2 * c\<close> otherwise; so \<open>push_back\<close> on a
  full vector of capacity 4 and size 4 gives size 5 and capacity exactly 8, the previous
  elements in order and the pushed value at the end. The pushed value may be passed by
  reference to an element of the vector itself.
\<close>

theorem next_capacity_push_back_full:
  "next_capacity c = (if c = 0 then 2 else 2 * c) \<and>
   (wf_vector v \<and> capacity v = 4 \<and> size_v v = 4 \<and> read_ref v val = Some x \<longrightarrow>
     (\<exists>v'. push_back T v val = Some v' \<and> size_v v' = 5 \<and> capacity v' = 8 \<and>
           contents v' = contents v @ [x]))"
proof (intro conjI impI)
  show "next_capacity c = (if c = 0 then 2 else 2 * c)"
    by (simp add: next_capacity_def)
next
  assume a: "wf_vector v \<and> capacity v = 4 \<and> size_v v = 4 \<and> read_ref v val = Some x"
  then have f: "full v" by (simp add: full_def capacity_def size_v_def)
  obtain v' where e: "emplace_back_internal T v val = Some (m_size v, v')"
    and s: "m_size v' = m_size v + 1" and k: "contents v' = contents v @ [x]"
    and c: "capacity v' = (if full v then next_capacity (capacity v) else capacity v)"
    using emplace_back_internal_ok[of v val x T] a by blast
  show "\<exists>v'. push_back T v val = Some v' \<and> size_v v' = 5 \<and> capacity v' = 8 \<and>
           contents v' = contents v @ [x]"
    using a f e s k c by (simp add: push_back_def size_v_def next_capacity_def)
qed

theorem next_capacity_push_back_full_witness:
  "next_capacity 4 = 8 \<and>
   (\<exists>v'. push_back \<lparr>value_has_trivial_destroy = False, use_simple_insert = True\<rparr>
           \<lparr>m_data = [Some 1, Some 2, Some 3, Some 4], m_size = 4\<rparr> (Val (5::int)) = Some v' \<and>
         size_v v' = 5 \<and> capacity v' = 8 \<and> contents v' = [1, 2, 3, 4, 5])"
  using next_capacity_push_back_full[of 4
      "\<lparr>m_data = [Some 1, Some 2, Some 3, Some 4], m_size = 4\<rparr>" "Val (5::int)" 5
      "\<lparr>value_has_trivial_destroy = False, use_simple_insert = True\<rparr>"]
  by (simp add: wf_vector_def capacity_def size_v_def read_ref_def contents_def)

section \<open>pop_back\<close>

text \<open>
  C9. \<open>pop_back()\<close> on an empty vector is a no-op that never fails: it returns normally
  and leaves size, capacity and element sequence (indeed the whole state) as they were.
\<close>

theorem pop_back_empty:
  "empty_v v \<Longrightarrow>
   pop_back v = Some v \<and> size_v (the (pop_back v)) = size_v v \<and>
   capacity (the (pop_back v)) = capacity v \<and> contents (the (pop_back v)) = contents v"
  by (simp add: pop_back_def)

theorem pop_back_empty_witness:
  "empty_v \<lparr>m_data = [None, None :: int option], m_size = 0\<rparr> \<and>
   pop_back \<lparr>m_data = [None, None :: int option], m_size = 0\<rparr> =
     Some \<lparr>m_data = [None, None], m_size = 0\<rparr> \<and>
   empty_v (reset :: int vector_base) \<and> pop_back (reset :: int vector_base) = Some reset"
  using pop_back_empty[of "\<lparr>m_data = [None, None :: int option], m_size = 0\<rparr>"]
    pop_back_empty[of "reset :: int vector_base"]
  by (simp add: empty_v_def reset_def)

section \<open>Relational operators\<close>

text \<open>\<open>kane::unchecked_lexicographical_compare(first1, last1, first2)\<close> over two arrays.\<close>

function unchecked_lexicographical_compare ::
  "('a::ord) storage \<Rightarrow> nat \<Rightarrow> nat \<Rightarrow> 'a storage \<Rightarrow> nat \<Rightarrow> bool option" where
  "unchecked_lexicographical_compare a first1 last1 b first2 =
     (if first1 = last1 then Some False
      else do {
        x \<leftarrow> deref a first1;
        y \<leftarrow> deref b first2;
        if x < y then Some True
        else if y < x then Some False
        else unchecked_lexicographical_compare a (first1 + 1) last1 b (first2 + 1)
      })"
  by pat_completeness auto
termination
  by (relation "measure (\<lambda>(a, first1, last1, b, first2). length a - first1)")
     (auto simp: deref_def split: if_splits)

declare unchecked_lexicographical_compare.simps [simp del]

text \<open>\<open>std::equal(first1, last1, first2)\<close> of the standard library, over two arrays.\<close>

function std_equal :: "'a storage \<Rightarrow> nat \<Rightarrow> nat \<Rightarrow> 'a storage \<Rightarrow> nat \<Rightarrow> bool option" where
  "std_equal a first1 last1 b first2 =
     (if first1 = last1 then Some True
      else do {
        x \<leftarrow> deref a first1;
        y \<leftarrow> deref b first2;
        if x = y then std_equal a (first1 + 1) last1 b (first2 + 1) else Some False
      })"
  by pat_completeness auto
termination
  by (relation "measure (\<lambda>(a, first1, last1, b, first2). length a - first1)")
     (auto simp: deref_def split: if_splits)

declare std_equal.simps [simp del]

definition operator_eq :: "'a vector_base \<Rightarrow> 'a vector_base \<Rightarrow> bool option" where
  "operator_eq this rhs =
     (if size_v this = size_v rhs then std_equal (m_data this) 0 (iend this) (m_data rhs) 0
      else Some False)"

definition operator_ne :: "'a vector_base \<Rightarrow> 'a vector_base \<Rightarrow> bool option" where
  "operator_ne this rhs =
     (if size_v this \<noteq> size_v rhs then Some True
      else map_option Not (std_equal (m_data this) 0 (iend this) (m_data rhs) 0))"

definition operator_lt :: "('a::ord) vector_base \<Rightarrow> 'a vector_base \<Rightarrow> bool option" where
  "operator_lt this rhs =
     (if size_v this < size_v rhs then Some True
      else if size_v this = size_v rhs then
        unchecked_lexicographical_compare (m_data this) 0 (iend this) (m_data rhs) 0
      else Some False)"

definition operator_le :: "('a::ord) vector_base \<Rightarrow> 'a vector_base \<Rightarrow> bool option" where
  "operator_le this rhs =
     (if size_v this < size_v rhs then Some True
      else if size_v this = size_v rhs then
        map_option Not (unchecked_lexicographical_compare (m_data rhs) 0 (iend rhs) (m_data this) 0)
      else Some False)"

definition operator_gt :: "('a::ord) vector_base \<Rightarrow> 'a vector_base \<Rightarrow> bool option" where
  "operator_gt this rhs = map_option Not (operator_le rhs this)"

definition operator_ge :: "('a::ord) vector_base \<Rightarrow> 'a vector_base \<Rightarrow> bool option" where
  "operator_ge this rhs = map_option Not (operator_lt rhs this)"

lemma operator_le_dual: "operator_le a b = map_option Not (operator_lt b a)"
  by (auto simp: operator_le_def operator_lt_def)

lemma map_option_Not_Not: "map_option Not (map_option Not x) = x"
  by (cases x) auto

lemma operator_gt_is_lt: "operator_gt a b = operator_lt a b"
  by (simp add: operator_gt_def operator_le_dual map_option_Not_Not)

lemma operator_ge_is_le: "operator_ge a b = operator_le a b"
  by (simp add: operator_ge_def operator_le_dual)

text \<open>The order the standard dualities describe, on element sequences.\<close>

fun lex_less :: "('a::ord) list \<Rightarrow> 'a list \<Rightarrow> bool" where
  "lex_less (x # xs) (y # ys) = (x < y \<or> (\<not> y < x \<and> lex_less xs ys))"
| "lex_less _ _ = False"

lemma ulc_eq:
  "first1 \<le> last1 \<Longrightarrow> last1 \<le> length a \<Longrightarrow> first2 + (last1 - first1) \<le> length b \<Longrightarrow>
   \<forall>i. first1 \<le> i \<and> i < last1 \<longrightarrow> a ! i \<noteq> None \<Longrightarrow>
   \<forall>i. first2 \<le> i \<and> i < first2 + (last1 - first1) \<longrightarrow> b ! i \<noteq> None \<Longrightarrow>
   unchecked_lexicographical_compare a first1 last1 b first2 =
     Some (lex_less (map the (take (last1 - first1) (drop first1 a)))
                    (map the (take (last1 - first1) (drop first2 b))))"
proof (induction a first1 last1 b first2 rule: unchecked_lexicographical_compare.induct)
  case (1 a first1 last1 b first2)
  show ?case
  proof (cases "first1 = last1")
    case True
    then show ?thesis by (simp add: unchecked_lexicographical_compare.simps)
  next
    case False
    with 1 have lt: "first1 < last1" by simp
    obtain x where x: "a ! first1 = Some x" using lt 1(5) by auto
    obtain y where y: "b ! first2 = Some y" using lt 1(6) by (metis less_add_same_cancel1 option.exhaust order_refl zero_less_diff)
    have dx: "deref a first1 = Some x" using lt 1(3) x by (simp add: deref_def)
    have l2: "first2 < first2 + (last1 - first1)" using lt by simp
    then have l2': "first2 + (last1 - first1) \<le> length b" using 1(4) by simp
    have dy: "deref b first2 = Some y" using l2 1(4) y by (simp add: deref_def)
    have ta: "take (last1 - first1) (drop first1 a) = Some x # take (last1 - Suc first1) (drop (Suc first1) a)"
      using lt 1(3) x by (metis Cons_nth_drop_Suc Suc_diff_Suc order_less_le_trans take_Suc_Cons)
    have tb: "take (last1 - first1) (drop first2 b) = Some y # take (last1 - Suc first1) (drop (Suc first2) b)"
      using lt l2 l2' y by (metis Cons_nth_drop_Suc Suc_diff_Suc order_less_le_trans take_Suc_Cons)
    show ?thesis
    proof (cases "x < y \<or> y < x")
      case True
      then show ?thesis
        by (subst unchecked_lexicographical_compare.simps) (auto simp: False dx dy ta tb)
    next
      case nlt: False
      have ih: "unchecked_lexicographical_compare a (first1 + 1) last1 b (first2 + 1) =
         Some (lex_less (map the (take (last1 - (first1 + 1)) (drop (first1 + 1) a)))
                    (map the (take (last1 - (first1 + 1)) (drop (first2 + 1) b))))"
        using nlt lt 1(3,4,5,6) by (intro 1(1)[OF False dx dy]) auto
      show ?thesis
        using nlt ih by (subst unchecked_lexicographical_compare.simps) (simp add: False dx dy ta tb)
    qed
  qed
qed

lemma std_equal_eq:
  "first1 \<le> last1 \<Longrightarrow> last1 \<le> length a \<Longrightarrow> first2 + (last1 - first1) \<le> length b \<Longrightarrow>
   \<forall>i. first1 \<le> i \<and> i < last1 \<longrightarrow> a ! i \<noteq> None \<Longrightarrow>
   \<forall>i. first2 \<le> i \<and> i < first2 + (last1 - first1) \<longrightarrow> b ! i \<noteq> None \<Longrightarrow>
   std_equal a first1 last1 b first2 =
     Some (map the (take (last1 - first1) (drop first1 a)) =
           map the (take (last1 - first1) (drop first2 b)))"
proof (induction a first1 last1 b first2 rule: std_equal.induct)
  case (1 a first1 last1 b first2)
  show ?case
  proof (cases "first1 = last1")
    case True
    then show ?thesis by (simp add: std_equal.simps)
  next
    case False
    with 1 have lt: "first1 < last1" by simp
    obtain x where x: "a ! first1 = Some x" using lt 1(5) by auto
    obtain y where y: "b ! first2 = Some y" using lt 1(6) by (metis less_add_same_cancel1 option.exhaust order_refl zero_less_diff)
    have dx: "deref a first1 = Some x" using lt 1(3) x by (simp add: deref_def)
    have l2: "first2 < first2 + (last1 - first1)" using lt by simp
    then have l2': "first2 + (last1 - first1) \<le> length b" using 1(4) by simp
    have dy: "deref b first2 = Some y" using l2 1(4) y by (simp add: deref_def)
    have ta: "take (last1 - first1) (drop first1 a) = Some x # take (last1 - Suc first1) (drop (Suc first1) a)"
      using lt 1(3) x by (metis Cons_nth_drop_Suc Suc_diff_Suc order_less_le_trans take_Suc_Cons)
    have tb: "take (last1 - first1) (drop first2 b) = Some y # take (last1 - Suc first1) (drop (Suc first2) b)"
      using lt l2 l2' y by (metis Cons_nth_drop_Suc Suc_diff_Suc order_less_le_trans take_Suc_Cons)
    show ?thesis
    proof (cases "x = y")
      case True
      have ih: "std_equal a (first1 + 1) last1 b (first2 + 1) =
         Some (map the (take (last1 - (first1 + 1)) (drop (first1 + 1) a)) =
                    map the (take (last1 - (first1 + 1)) (drop (first2 + 1) b)))"
        using True lt 1(3,4,5,6) by (intro 1(1)[OF False dx dy]) auto
      show ?thesis
        using True ih by (subst std_equal.simps) (simp add: False dx dy ta tb)
    next
      case ne: False
      then show ?thesis
        by (subst std_equal.simps) (auto simp: False dx dy ta tb)
    qed
  qed
qed

lemma operator_eq_contents:
  "wf_vector a \<Longrightarrow> wf_vector b \<Longrightarrow> operator_eq a b = Some (contents a = contents b)"
  using std_equal_eq[of 0 "m_size a" "m_data a" 0 "m_data b"]
  by (auto simp: operator_eq_def size_v_def iend_def contents_def wf_vector_iff dest: arg_cong[where f=length])

lemma operator_lt_contents:
  "wf_vector a \<Longrightarrow> wf_vector b \<Longrightarrow>
   operator_lt a b = Some (size_v a < size_v b \<or>
                           (size_v a = size_v b \<and> lex_less (contents a) (contents b)))"
  using ulc_eq[of 0 "m_size a" "m_data a" 0 "m_data b"]
  by (auto simp: operator_lt_def size_v_def iend_def contents_def wf_vector_iff)

text \<open>
  C7. Equality is equality of sizes and of elements, \<open><\<close> compares sizes first and then
  the elements lexicographically, and \<open>a <= b\<close> is \<open>\<not> (b < a)\<close> (the three lemmas above).
  The claim continues: \<open>a >= b\<close> iff \<open>\<not> (a < b)\<close>, and \<open>a > b\<close> iff \<open>b < a\<close>. The code writes
  \<open>operator>\<close> as \<open>!(rhs <= *this)\<close> and \<open>operator>=\<close> as \<open>!(rhs < *this)\<close>, with the operands
  the wrong way round, so that \<open>>\<close> always answers as \<open><\<close> and \<open>>=\<close> as \<open><=\<close>
  (\<open>operator_gt_is_lt\<close>, \<open>operator_ge_is_le\<close>). With \<open>a = [1, 2]\<close> and \<open>b = [1]\<close>: \<open>b < a\<close> holds
  but \<open>a > b\<close> is false, and \<open>a < b\<close> fails but \<open>a >= b\<close> is false; with \<open>a = [2]\<close>, \<open>b = [1]\<close>
  likewise.
\<close>

theorem operator_gt_ge_failing_input:
  "operator_lt \<lparr>m_data = [Some (1::int)], m_size = 1\<rparr>
               \<lparr>m_data = [Some 1, Some 2], m_size = 2\<rparr> = Some True \<and>
   operator_gt \<lparr>m_data = [Some 1, Some 2], m_size = 2\<rparr>
               \<lparr>m_data = [Some (1::int)], m_size = 1\<rparr> = Some False \<and>
   operator_lt \<lparr>m_data = [Some 1, Some 2], m_size = 2\<rparr>
               \<lparr>m_data = [Some (1::int)], m_size = 1\<rparr> = Some False \<and>
   operator_ge \<lparr>m_data = [Some 1, Some 2], m_size = 2\<rparr>
               \<lparr>m_data = [Some (1::int)], m_size = 1\<rparr> = Some False \<and>
   operator_lt \<lparr>m_data = [Some (1::int)], m_size = 1\<rparr>
               \<lparr>m_data = [Some 2], m_size = 1\<rparr> = Some True \<and>
   operator_gt \<lparr>m_data = [Some (2::int)], m_size = 1\<rparr>
               \<lparr>m_data = [Some 1], m_size = 1\<rparr> = Some False \<and>
   operator_lt \<lparr>m_data = [Some (2::int)], m_size = 1\<rparr>
               \<lparr>m_data = [Some 1], m_size = 1\<rparr> = Some False \<and>
   operator_ge \<lparr>m_data = [Some (2::int)], m_size = 1\<rparr>
               \<lparr>m_data = [Some 1], m_size = 1\<rparr> = Some False"
  by (simp add: operator_lt_def operator_gt_def operator_ge_def operator_le_def size_v_def
      iend_def unchecked_lexicographical_compare.simps deref_def)

section \<open>Erase\<close>

text \<open>\<open>move_assign_from_range(first1, first2, last2)\<close> where the source range lies in the
  array that is written: each step reads what the steps before it left.\<close>

function move_construct_from_range_same ::
  "'a storage \<Rightarrow> nat \<Rightarrow> nat \<Rightarrow> nat \<Rightarrow> (nat \<times> 'a storage) option" where
  "move_construct_from_range_same a first1 first2 last2 =
     (if first2 = last2 then Some (first1, a)
      else do {
        x \<leftarrow> deref a first2;
        a' \<leftarrow> construct a first1 x;
        move_construct_from_range_same a' (first1 + 1) (first2 + 1) last2
      })"
  by pat_completeness auto
termination
  by (relation "measure (\<lambda>(a, first1, first2, last2). length a - first2)")
     (auto simp: deref_def construct_def split: if_splits)

declare move_construct_from_range_same.simps [simp del]

function move_assign_loop_same ::
  "'a storage \<Rightarrow> nat \<Rightarrow> nat \<Rightarrow> nat \<Rightarrow> (nat \<times> 'a storage) option" where
  "move_assign_loop_same a first1 first2 last2 =
     (if first2 = last2 then Some (first1, a)
      else do {
        x \<leftarrow> deref a first2;
        a' \<leftarrow> assign a first1 x;
        move_assign_loop_same a' (first1 + 1) (first2 + 1) last2
      })"
  by pat_completeness auto
termination
  by (relation "measure (\<lambda>(a, first1, first2, last2). length a - first2)")
     (auto simp: deref_def assign_def split: if_splits)

declare move_assign_loop_same.simps [simp del]

definition move_assign_from_range_same ::
  "value_traits \<Rightarrow> 'a storage \<Rightarrow> nat \<Rightarrow> nat \<Rightarrow> nat \<Rightarrow> (nat \<times> 'a storage) option" where
  "move_assign_from_range_same T a first1 first2 last2 =
     (if value_has_trivial_destroy T then move_construct_from_range_same a first1 first2 last2
      else move_assign_loop_same a first1 first2 last2)"

definition truncate_internal ::
  "value_traits \<Rightarrow> 'a vector_base \<Rightarrow> nat \<Rightarrow> (nat \<times> 'a vector_base) option" where
  "truncate_internal T v lst = do {
     d \<leftarrow> destroy_range T (m_data v) lst (iend v);
     Some (lst, v\<lparr>m_data := d, m_size := lst\<rparr>)
   }"

definition erase_internal ::
  "value_traits \<Rightarrow> 'a vector_base \<Rightarrow> nat \<Rightarrow> nat \<Rightarrow> (nat \<times> 'a vector_base) option" where
  "erase_internal T v first lst = do {
     (p, d) \<leftarrow> move_assign_from_range_same T (m_data v) first lst (iend v);
     (_, v') \<leftarrow> truncate_internal T (v\<lparr>m_data := d\<rparr>) p;
     Some (first, v')
   }"

definition erase ::
  "value_traits \<Rightarrow> 'a vector_base \<Rightarrow> nat \<Rightarrow> nat \<Rightarrow> (nat \<times> 'a vector_base) option" where
  "erase T v first lst =
     (if first = lst then Some (first, v)
      else if lst = iend v then truncate_internal T v first
      else erase_internal T v first lst)"

definition erase_at ::
  "value_traits \<Rightarrow> 'a vector_base \<Rightarrow> nat \<Rightarrow> (nat \<times> 'a vector_base) option" where
  "erase_at T v position = erase_internal T v position (position + 1)"

lemma move_construct_from_range_same_eq:
  "first1 \<le> first2 \<Longrightarrow> first2 \<le> last2 \<Longrightarrow> last2 \<le> length a \<Longrightarrow>
   \<forall>i. first2 \<le> i \<and> i < last2 \<longrightarrow> a ! i \<noteq> None \<Longrightarrow>
   move_construct_from_range_same a first1 first2 last2 =
     Some (first1 + (last2 - first2), overwrite a first1 (take (last2 - first2) (drop first2 a)))"
proof (induction a first1 first2 last2 rule: move_construct_from_range_same.induct)
  case (1 a first1 first2 last2)
  show ?case
  proof (cases "first2 = last2")
    case True
    then show ?thesis by (simp add: move_construct_from_range_same.simps)
  next
    case False
    with 1 have lt: "first2 < last2" by simp
    then obtain x where x: "a ! first2 = Some x" using 1(5) by auto
    have d: "deref a first2 = Some x" using lt 1(4) x by (simp add: deref_def)
    have fl: "first1 < length a" using lt 1(2,4) by simp
    have c: "construct a first1 x = Some (a[first1 := Some x])" using fl by (simp add: construct_def)
    have ih: "move_construct_from_range_same (a[first1 := Some x]) (Suc first1) (Suc first2) last2 =
      Some (Suc first1 + (last2 - Suc first2),
            overwrite (a[first1 := Some x]) (Suc first1)
              (take (last2 - Suc first2) (drop (Suc first2) (a[first1 := Some x]))))"
      using 1(1)[OF False d c] lt 1(2-) by (simp add: nth_list_update)
    have dr: "drop (Suc first2) (a[first1 := Some x]) = drop (Suc first2) a"
      using 1(2) by (simp add: drop_update_cancel)
    have ar: "Suc first1 + (last2 - Suc first2) = first1 + (last2 - first2)" using lt by simp
    show ?thesis
      apply (subst move_construct_from_range_same.simps)
      apply (simp add: d c ih False dr)
      apply (simp add: overwrite_Cons[OF fl] take_drop_step[OF lt 1(4)] x ar)
      using lt by simp
  qed
qed

lemma move_assign_loop_same_eq:
  "first1 \<le> first2 \<Longrightarrow> first2 \<le> last2 \<Longrightarrow> last2 \<le> length a \<Longrightarrow>
   \<forall>i. first1 \<le> i \<and> i < last2 \<longrightarrow> a ! i \<noteq> None \<Longrightarrow>
   move_assign_loop_same a first1 first2 last2 =
     Some (first1 + (last2 - first2), overwrite a first1 (take (last2 - first2) (drop first2 a)))"
proof (induction a first1 first2 last2 rule: move_assign_loop_same.induct)
  case (1 a first1 first2 last2)
  show ?case
  proof (cases "first2 = last2")
    case True
    then show ?thesis by (simp add: move_assign_loop_same.simps)
  next
    case False
    with 1 have lt: "first2 < last2" by simp
    then obtain x where x: "a ! first2 = Some x" using 1(2,5) by auto
    have d: "deref a first2 = Some x" using lt 1(4) x by (simp add: deref_def)
    have fl: "first1 < length a" using lt 1(2,4) by simp
    have c: "assign a first1 x = Some (a[first1 := Some x])"
      using fl lt 1(2,5) by (simp add: assign_def)
    have ih: "move_assign_loop_same (a[first1 := Some x]) (Suc first1) (Suc first2) last2 =
      Some (Suc first1 + (last2 - Suc first2),
            overwrite (a[first1 := Some x]) (Suc first1)
              (take (last2 - Suc first2) (drop (Suc first2) (a[first1 := Some x]))))"
      using 1(1)[OF False d c] lt 1(2-) by (simp add: nth_list_update)
    have dr: "drop (Suc first2) (a[first1 := Some x]) = drop (Suc first2) a"
      using 1(2) by (simp add: drop_update_cancel)
    have ar: "Suc first1 + (last2 - Suc first2) = first1 + (last2 - first2)" using lt by simp
    show ?thesis
      apply (subst move_assign_loop_same.simps)
      apply (simp add: d c ih False dr)
      apply (simp add: overwrite_Cons[OF fl] take_drop_step[OF lt 1(4)] x ar)
      using lt by simp
  qed
qed

lemma move_assign_from_range_same_eq:
  "first1 \<le> first2 \<Longrightarrow> first2 \<le> last2 \<Longrightarrow> last2 \<le> length a \<Longrightarrow>
   \<forall>i. first1 \<le> i \<and> i < last2 \<longrightarrow> a ! i \<noteq> None \<Longrightarrow>
   move_assign_from_range_same T a first1 first2 last2 =
     Some (first1 + (last2 - first2), overwrite a first1 (take (last2 - first2) (drop first2 a)))"
  by (simp add: move_assign_from_range_same_def move_construct_from_range_same_eq
      move_assign_loop_same_eq)

lemma truncate_internal_ok:
  assumes "wf_vector v" "lst \<le> m_size v"
  shows "\<exists>v'. truncate_internal T v lst = Some (lst, v') \<and> wf_vector v' \<and> m_size v' = lst \<and>
           capacity v' = capacity v \<and> contents v' = take lst (contents v)"
proof -
  obtain d where d: "destroy_range T (m_data v) lst (m_size v) = Some d"
    and l: "length d = length (m_data v)" and t: "take lst d = take lst (m_data v)"
    using destroy_range_ok[of lst "m_size v" "m_data v" T] assms by (auto simp: wf_vector_iff)
  have "list_all (\<lambda>s. s \<noteq> None) (take lst (m_data v))"
    using assms by (auto simp: wf_vector_iff list_all_length)
  moreover have "map the (take lst d) = take lst (map the (take (m_size v) (m_data v)))"
  proof -
    have "take lst (take (m_size v) (m_data v)) = take lst (m_data v)"
      using assms(2) by (simp add: min_def)
    then show ?thesis by (metis t take_map)
  qed
  ultimately show ?thesis
    using assms l t
    by (simp add: truncate_internal_def iend_def d wf_vector_def capacity_def contents_def)
qed

lemma erase_ok:
  assumes "wf_vector v" "first \<le> lst" "lst \<le> m_size v"
  shows "\<exists>v'. erase T v first lst = Some (first, v') \<and> wf_vector v' \<and>
           contents v' = take first (contents v) @ drop lst (contents v) \<and>
           size_v v' = size_v v - (lst - first) \<and> capacity v' = capacity v"
proof -
  let ?n = "m_size v" and ?a = "m_data v"
  consider (none) "first = lst" | (tail) "first < lst" "lst = ?n" | (mid) "first < lst" "lst < ?n"
    using assms by linarith
  then show ?thesis
  proof cases
    case none
    then show ?thesis using assms
      by (simp add: erase_def contents_def flip: map_append take_drop)
  next
    case tail
    obtain v' where "truncate_internal T v first = Some (first, v')" "wf_vector v'" "m_size v' = first"
      "capacity v' = capacity v" "contents v' = take first (contents v)"
      using truncate_internal_ok[of v first T] assms tail by auto
    then show ?thesis using tail assms
      by (auto simp: erase_def iend_def size_v_def contents_def)
  next
    case mid
    define ys where "ys = take (?n - lst) (drop lst ?a)"
    define d where "d = overwrite ?a first ys"
    define p where "p = first + (?n - lst)"
    have ly: "length ys = ?n - lst" using assms by (auto simp: wf_vector_iff ys_def)
    have mv: "move_assign_from_range_same T ?a first lst ?n = Some (p, d)"
      using move_assign_from_range_same_eq[of first lst ?n ?a T] assms
      by (simp add: wf_vector_iff p_def d_def ys_def)
    have fy: "first + length ys \<le> length ?a" using assms ly by (auto simp: wf_vector_iff)
    have ld: "length d = length ?a" using length_overwrite[OF fy] by (simp add: d_def)
    have "\<forall>i<?n. d ! i \<noteq> None"
    proof (intro allI impI)
      fix i assume i: "i < ?n"
      then have il: "i < length ?a" using assms by (simp add: wf_vector_iff)
      have "\<And>j. j < length ys \<Longrightarrow> ys ! j \<noteq> None"
        using assms by (auto simp: ys_def wf_vector_iff)
      then show "d ! i \<noteq> None"
        unfolding d_def nth_overwrite[OF fy il] using assms i by (auto simp: wf_vector_iff)
    qed
    then have w1: "wf_vector (v\<lparr>m_data := d\<rparr>)"
      using assms ld by (simp add: wf_vector_iff)
    have pn: "p \<le> m_size (v\<lparr>m_data := d\<rparr>)" using assms by (simp add: p_def)
    obtain v' where tr: "truncate_internal T (v\<lparr>m_data := d\<rparr>) p = Some (p, v')"
      and w': "wf_vector v'" and s': "m_size v' = p" and c': "capacity v' = capacity (v\<lparr>m_data := d\<rparr>)"
      and k': "contents v' = take p (contents (v\<lparr>m_data := d\<rparr>))"
      using truncate_internal_ok[OF w1 pn, of T] by auto
    have e: "erase T v first lst = Some (first, v')"
      using mid by (simp add: erase_def erase_internal_def iend_def mv tr)
    have tk: "take p d = take first ?a @ ys"
      using take_overwrite[OF fy] ly by (simp add: p_def d_def)
    have "take p (map the (take ?n d)) = map the (take p d)"
      using pn by (simp add: min_def flip: take_map)
    moreover have "drop lst (map the (take ?n ?a)) = map the ys"
      by (simp add: ys_def drop_map drop_take)
    moreover have "take first (map the (take ?n ?a)) = map the (take first ?a)"
      using assms by (simp add: min_def flip: take_map)
    moreover have "contents (v\<lparr>m_data := d\<rparr>) = map the (take ?n d)"
      and "contents v = map the (take ?n ?a)"
      by (simp_all add: contents_def)
    ultimately have "contents v' = take first (contents v) @ drop lst (contents v)"
      by (simp only: k' tk map_append)
    then show ?thesis
      using e w' s' c' ld assms by (simp add: size_v_def capacity_def p_def)
  qed
qed

text \<open>
  C5. For a valid range \<open>[first, last)\<close> with \<open>last\<close> not past \<open>end()\<close>, \<open>erase(first, last)\<close>
  removes exactly those elements and keeps the others in their order, the size drops by
  \<open>last - first\<close> and the capacity is unchanged; for \<open>[1,2,3,4,5]\<close>, erasing \<open>[begin+1, begin+3)\<close>
  leaves \<open>[1,4,5]\<close> with size 3 (the witness).
\<close>

theorem erase_range_correct:
  assumes "wf_vector v" and "first \<le> lst" and "lst \<le> size_v v"
  shows "\<exists>v'. erase T v first lst = Some (first, v') \<and>
           contents v' = take first (contents v) @ drop lst (contents v) \<and>
           size_v v' = size_v v - (lst - first) \<and> capacity v' = capacity v \<and> wf_vector v'"
proof -
  from assms(3) have "lst \<le> m_size v" by (simp add: size_v_def)
  from erase_ok[OF assms(1,2) this, of T] show ?thesis by blast
qed

theorem erase_range_correct_witness:
  "\<exists>v'. erase \<lparr>value_has_trivial_destroy = False, use_simple_insert = True\<rparr>
          \<lparr>m_data = [Some 1, Some 2, Some 3, Some 4, Some (5::int), None, None, None], m_size = 5\<rparr>
          1 3 = Some (1, v') \<and>
        contents v' = [1, 4, 5] \<and> size_v v' = 3 \<and> capacity v' = 8"
  using erase_range_correct[of
      "\<lparr>m_data = [Some 1, Some 2, Some 3, Some 4, Some (5::int), None, None, None], m_size = 5\<rparr>"
      1 3 "\<lparr>value_has_trivial_destroy = False, use_simple_insert = True\<rparr>"]
  by (auto simp: wf_vector_def size_v_def capacity_def contents_def)

section \<open>Making a gap\<close>

text \<open>The loops of \<open>move_forward_1\<close> and \<open>move_forward_n\<close> walk down from the end of the
  initialised range. Decrementing a pointer that stands at the beginning of the array is
  undefined.\<close>

function move_forward_1_construct_loop :: "'a storage \<Rightarrow> nat \<Rightarrow> nat \<Rightarrow> 'a storage option" where
  "move_forward_1_construct_loop a dest position =
     (if dest \<noteq> position then
        (if dest = 0 then None
         else do {
           let src = dest - 1;
           x \<leftarrow> deref a src;
           a' \<leftarrow> construct a dest x;
           move_forward_1_construct_loop a' src position
         })
      else Some a)"
  by pat_completeness auto
termination
  by (relation "measure (\<lambda>(a, dest, position). dest)") auto

declare move_forward_1_construct_loop.simps [simp del]

function move_forward_1_assign_loop :: "'a storage \<Rightarrow> nat \<Rightarrow> nat \<Rightarrow> 'a storage option" where
  "move_forward_1_assign_loop a dest position =
     (if dest \<noteq> position then
        (if dest = 0 then None
         else do {
           let src = dest - 1;
           x \<leftarrow> deref a src;
           a' \<leftarrow> assign a dest x;
           move_forward_1_assign_loop a' src position
         })
      else Some a)"
  by pat_completeness auto
termination
  by (relation "measure (\<lambda>(a, dest, position). dest)") auto

declare move_forward_1_assign_loop.simps [simp del]

definition move_forward_1 ::
  "value_traits \<Rightarrow> 'a vector_base \<Rightarrow> nat \<Rightarrow> 'a vector_base option" where
  "move_forward_1 T v position = do {
     let dest = iend v;
     a \<leftarrow> (if value_has_trivial_destroy T then
            move_forward_1_construct_loop (m_data v) dest position
          else if dest = 0 then None
          else do {
            let src = dest - 1;
            x \<leftarrow> deref (m_data v) src;
            a' \<leftarrow> construct (m_data v) dest x;
            move_forward_1_assign_loop a' src position
          });
     Some (v\<lparr>m_data := a, m_size := m_size v + 1\<rparr>)
   }"

text \<open>\<open>while(src != position) { --src; --dest; construct(dest, std::move(*src)); }\<close>\<close>

function move_forward_n_construct_while ::
  "'a storage \<Rightarrow> nat \<Rightarrow> nat \<Rightarrow> nat \<Rightarrow> (nat \<times> nat \<times> 'a storage) option" where
  "move_forward_n_construct_while a src dest position =
     (if src \<noteq> position then
        (if src = 0 \<or> dest = 0 then None
         else do {
           x \<leftarrow> deref a (src - 1);
           a' \<leftarrow> construct a (dest - 1) x;
           move_forward_n_construct_while a' (src - 1) (dest - 1) position
         })
      else Some (src, dest, a))"
  by pat_completeness auto
termination
  by (relation "measure (\<lambda>(a, src, dest, position). src)") auto

declare move_forward_n_construct_while.simps [simp del]

text \<open>\<open>do { --dest; --src; construct(dest, std::move(*src)); } while(dest != last);\<close>\<close>

function move_forward_n_construct_do_while ::
  "'a storage \<Rightarrow> nat \<Rightarrow> nat \<Rightarrow> nat \<Rightarrow> (nat \<times> nat \<times> 'a storage) option" where
  "move_forward_n_construct_do_while a src dest lst =
     (if src = 0 \<or> dest = 0 then None
      else do {
        x \<leftarrow> deref a (src - 1);
        a' \<leftarrow> construct a (dest - 1) x;
        if dest - 1 \<noteq> lst then move_forward_n_construct_do_while a' (src - 1) (dest - 1) lst
        else Some (src - 1, dest - 1, a')
      })"
  by pat_completeness auto
termination
  by (relation "measure (\<lambda>(a, src, dest, lst). dest)") auto

declare move_forward_n_construct_do_while.simps [simp del]

text \<open>\<open>while(src != position) { --dest; --src; *dest = std::move(*src); }\<close>\<close>

function move_forward_n_assign_while ::
  "'a storage \<Rightarrow> nat \<Rightarrow> nat \<Rightarrow> nat \<Rightarrow> (nat \<times> nat \<times> 'a storage) option" where
  "move_forward_n_assign_while a src dest position =
     (if src \<noteq> position then
        (if src = 0 \<or> dest = 0 then None
         else do {
           x \<leftarrow> deref a (src - 1);
           a' \<leftarrow> assign a (dest - 1) x;
           move_forward_n_assign_while a' (src - 1) (dest - 1) position
         })
      else Some (src, dest, a))"
  by pat_completeness auto
termination
  by (relation "measure (\<lambda>(a, src, dest, position). src)") auto

declare move_forward_n_assign_while.simps [simp del]

text \<open>Returns the end of the initialised part of the gap.\<close>

definition move_forward_n ::
  "value_traits \<Rightarrow> 'a vector_base \<Rightarrow> nat \<Rightarrow> nat \<Rightarrow> (nat \<times> 'a vector_base) option" where
  "move_forward_n T v position sz =
     (let lst = iend v; src = lst; dest = src + sz; v1 = v\<lparr>m_size := dest\<rparr> in
      if value_has_trivial_destroy T then do {
        (_, dest', a) \<leftarrow> move_forward_n_construct_while (m_data v1) src dest position;
        Some (dest', v1\<lparr>m_data := a\<rparr>)
      } else if position + sz < lst then do {
        (src1, dest1, a1) \<leftarrow> move_forward_n_construct_do_while (m_data v1) src dest lst;
        (_, dest2, a2) \<leftarrow> move_forward_n_assign_while a1 src1 dest1 position;
        Some (dest2, v1\<lparr>m_data := a2\<rparr>)
      } else do {
        (_, _, a) \<leftarrow> move_forward_n_construct_while (m_data v1) src dest position;
        Some (lst, v1\<lparr>m_data := a\<rparr>)
      })"

text \<open>
  \<open>make_gap_1\<close> and \<open>make_gap_n\<close> return pointers that the callers compare with \<open>position\<close>.
  A pointer into a newly allocated array differs from every pointer into the old one, but
  may stand at the same offset; so the model returns, with the offset, whether the array
  was reallocated.
\<close>

definition make_gap_1 ::
  "value_traits \<Rightarrow> 'a vector_base \<Rightarrow> nat \<Rightarrow> (nat \<times> bool \<times> 'a vector_base) option" where
  "make_gap_1 T v position =
     (if full v then do {
        let oldCapacity = capacity v;
        let newCapacity = next_capacity (capacity v);
        let newData = allocate newCapacity;
        (newPosition, newData1) \<leftarrow> move_construct_from_range newData 0 (m_data v) 0 position;
        (newSize, newData2) \<leftarrow>
          move_construct_from_range newData1 (newPosition + 1) (m_data v) position (iend v);
        _ \<leftarrow> destroy_range T (m_data v) 0 (iend v);
        Some (newPosition, True, reset3 newData2 newSize)
      } else do {
        v' \<leftarrow> move_forward_1 T v position;
        Some (position, False, v')
      })"

definition make_gap_n ::
  "value_traits \<Rightarrow> 'a vector_base \<Rightarrow> nat \<Rightarrow> nat \<Rightarrow>
     ((nat \<times> nat) \<times> bool \<times> 'a vector_base) option" where
  "make_gap_n T v position sz =
     (let oldCapacity = capacity v in
      if size_add (size_v v) sz > oldCapacity then do {
        let newCapacity = next_capacity (size_add (size_v v) sz) mod 2 ^ 64;
        let newData = allocate newCapacity;
        (newPosition, newData1) \<leftarrow> move_construct_from_range newData 0 (m_data v) 0 position;
        (newSize, newData2) \<leftarrow>
          move_construct_from_range newData1 (newPosition + sz) (m_data v) position (iend v);
        _ \<leftarrow> destroy_range T (m_data v) 0 (iend v);
        Some ((newPosition, newPosition), True, reset3 newData2 newSize)
      } else do {
        (u, v') \<leftarrow> move_forward_n T v position sz;
        Some ((position, u), False, v')
      })"

lemma overwrite_snoc:
  "p + length ys < length dst \<Longrightarrow>
   overwrite (dst[p + length ys := y]) p ys = overwrite dst p (ys @ [y])"
  by (simp add: overwrite_def drop_update_cancel flip: Cons_nth_drop_Suc upd_conv_take_nth_drop)

lemma overwrite_overwrite:
  "p + length ys + length zs \<le> length dst \<Longrightarrow>
   overwrite (overwrite dst (p + length ys) zs) p ys = overwrite dst p (ys @ zs)"
  by (simp add: overwrite_def add.assoc)

lemma take_drop_update_above:
  "p + n \<le> j \<Longrightarrow> take n (drop p (a[j := x])) = take n (drop p a)"
  by (simp add: drop_update_swap)

lemma take_drop_snoc:
  "p < s \<Longrightarrow> s \<le> length a \<Longrightarrow>
   take (s - p) (drop p a) = take (s - 1 - p) (drop p a) @ [a ! (s - 1)]"
  using take_Suc_conv_app_nth[of "s - 1 - p" "drop p a"] by (simp add: Suc_diff_Suc)

lemma move_forward_n_construct_while_eq:
  "position \<le> src \<Longrightarrow> dest = src + k \<Longrightarrow> dest \<le> length a \<Longrightarrow>
   \<forall>i. position \<le> i \<and> i < src \<longrightarrow> a ! i \<noteq> None \<Longrightarrow>
   move_forward_n_construct_while a src dest position =
     Some (position, position + k,
           overwrite a (position + k) (take (src - position) (drop position a)))"
proof (induction a src dest position rule: move_forward_n_construct_while.induct)
  case (1 a src dest position)
  show ?case
  proof (cases "src = position")
    case True
    then show ?thesis using 1(3) by (simp add: move_forward_n_construct_while.simps)
  next
    case False
    with 1 have lt: "position < src" by simp
    have sl: "src \<le> length a" using 1(3,4) by simp
    have "a ! (src - 1) \<noteq> None" using lt 1(5) by (auto dest!: spec[of _ "src - 1"])
    then obtain x where x: "a ! (src - 1) = Some x" by auto
    have d: "deref a (src - 1) = Some x" using lt sl x by (simp add: deref_def)
    have dl: "dest - 1 < length a" using lt 1(3,4) by simp
    have c: "construct a (dest - 1) x = Some (a[dest - 1 := Some x])"
      using dl by (simp add: construct_def)
    have nz: "\<not> (src = 0 \<or> dest = 0)" using lt 1(3) by simp
    define ys where "ys = take (src - 1 - position) (drop position a)"
    have ly: "length ys = src - 1 - position" using sl by (simp add: ys_def)
    have pk: "position + k + length ys = dest - 1" using lt 1(3) ly by simp
    have td: "take (src - 1 - position) (drop position (a[dest - 1 := Some x])) = ys"
      unfolding ys_def using lt 1(3) by (intro take_drop_update_above) simp
    have ih: "move_forward_n_construct_while (a[dest - 1 := Some x]) (src - 1) (dest - 1) position =
        Some (position, position + k, overwrite (a[dest - 1 := Some x]) (position + k) ys)"
    proof -
      have p1: "position \<le> src - 1" and p2: "dest - 1 = src - 1 + k"
        and p3: "dest - 1 \<le> length (a[dest - 1 := Some x])"
        using lt 1(3,4) by auto
      have p4: "\<forall>i. position \<le> i \<and> i < src - 1 \<longrightarrow> a[dest - 1 := Some x] ! i \<noteq> None"
        using 1(5) dl by (auto simp: nth_list_update)
      show ?thesis using 1(1)[OF False nz d c p1 p2 p3 p4] td by simp
    qed
    have "overwrite (a[dest - 1 := Some x]) (position + k) ys = overwrite a (position + k) (ys @ [Some x])"
      using overwrite_snoc[of "position + k" ys a "Some x"] pk dl by simp
    also have "ys @ [Some x] = take (src - position) (drop position a)"
      using take_drop_snoc[OF lt sl] x by (simp add: ys_def)
    finally have ow: "overwrite (a[dest - 1 := Some x]) (position + k) ys =
        overwrite a (position + k) (take (src - position) (drop position a))" .
    show ?thesis
      using False nz d c ih ow by (subst move_forward_n_construct_while.simps) simp
  qed
qed

lemma move_forward_n_assign_while_eq:
  "position \<le> src \<Longrightarrow> dest = src + k \<Longrightarrow> dest \<le> length a \<Longrightarrow>
   \<forall>i. position \<le> i \<and> i < dest \<longrightarrow> a ! i \<noteq> None \<Longrightarrow>
   move_forward_n_assign_while a src dest position =
     Some (position, position + k,
           overwrite a (position + k) (take (src - position) (drop position a)))"
proof (induction a src dest position rule: move_forward_n_assign_while.induct)
  case (1 a src dest position)
  show ?case
  proof (cases "src = position")
    case True
    then show ?thesis using 1(3) by (simp add: move_forward_n_assign_while.simps)
  next
    case False
    with 1 have lt: "position < src" by simp
    have sl: "src \<le> length a" using 1(3,4) by simp
    have "a ! (src - 1) \<noteq> None" using lt 1(3,5) by (auto dest!: spec[of _ "src - 1"])
    then obtain x where x: "a ! (src - 1) = Some x" by auto
    have d: "deref a (src - 1) = Some x" using lt sl x by (simp add: deref_def)
    have dl: "dest - 1 < length a" using lt 1(3,4) by simp
    have "a ! (dest - 1) \<noteq> None" using lt 1(3,5) by (auto dest!: spec[of _ "dest - 1"])
    then have c: "assign a (dest - 1) x = Some (a[dest - 1 := Some x])"
      using dl by (simp add: assign_def)
    have nz: "\<not> (src = 0 \<or> dest = 0)" using lt 1(3) by simp
    define ys where "ys = take (src - 1 - position) (drop position a)"
    have ly: "length ys = src - 1 - position" using sl by (simp add: ys_def)
    have pk: "position + k + length ys = dest - 1" using lt 1(3) ly by simp
    have td: "take (src - 1 - position) (drop position (a[dest - 1 := Some x])) = ys"
      unfolding ys_def using lt 1(3) by (intro take_drop_update_above) simp
    have ih: "move_forward_n_assign_while (a[dest - 1 := Some x]) (src - 1) (dest - 1) position =
        Some (position, position + k, overwrite (a[dest - 1 := Some x]) (position + k) ys)"
    proof -
      have p1: "position \<le> src - 1" and p2: "dest - 1 = src - 1 + k"
        and p3: "dest - 1 \<le> length (a[dest - 1 := Some x])"
        using lt 1(3,4) by auto
      have p4: "\<forall>i. position \<le> i \<and> i < dest - 1 \<longrightarrow> a[dest - 1 := Some x] ! i \<noteq> None"
        using 1(5) dl by (auto simp: nth_list_update)
      show ?thesis using 1(1)[OF False nz d c p1 p2 p3 p4] td by simp
    qed
    have "overwrite (a[dest - 1 := Some x]) (position + k) ys = overwrite a (position + k) (ys @ [Some x])"
      using overwrite_snoc[of "position + k" ys a "Some x"] pk dl by simp
    also have "ys @ [Some x] = take (src - position) (drop position a)"
      using take_drop_snoc[OF lt sl] x by (simp add: ys_def)
    finally have ow: "overwrite (a[dest - 1 := Some x]) (position + k) ys =
        overwrite a (position + k) (take (src - position) (drop position a))" .
    show ?thesis
      using False nz d c ih ow by (subst move_forward_n_assign_while.simps) simp
  qed
qed

lemma move_forward_n_construct_do_while_eq:
  "lst < dest \<Longrightarrow> dest - lst \<le> src \<Longrightarrow>
   move_forward_n_construct_do_while a src dest lst =
   move_forward_n_construct_while a src dest (src - (dest - lst))"
proof (induction a src dest lst rule: move_forward_n_construct_do_while.induct)
  case (1 a src dest lst)
  have nz: "\<not> (src = 0 \<or> dest = 0)" using 1(2,3) by auto
  have ne: "src \<noteq> src - (dest - lst)" using 1(2,3) by auto
  show ?case
  proof (cases "deref a (src - 1)")
    case None
    then show ?thesis
      using nz ne
      by (subst move_forward_n_construct_do_while.simps, subst move_forward_n_construct_while.simps)
         simp
  next
    case (Some x)
    show ?thesis
    proof (cases "construct a (dest - 1) x")
      case None
      then show ?thesis
        using nz ne Some
        by (subst move_forward_n_construct_do_while.simps, subst move_forward_n_construct_while.simps)
           simp
    next
      case c: (Some a')
      show ?thesis
      proof (cases "dest - 1 = lst")
        case True
        then have "src - (dest - lst) = src - 1" using 1(2,3) by auto
        then show ?thesis
          using nz ne Some c True 1(2,3)
          apply (subst move_forward_n_construct_do_while.simps)
          apply (subst move_forward_n_construct_while.simps)
          apply simp
          apply (subst move_forward_n_construct_while.simps)
          apply simp
          done
      next
        case False
        have ih: "move_forward_n_construct_do_while a' (src - 1) (dest - 1) lst =
            move_forward_n_construct_while a' (src - 1) (dest - 1) (src - 1 - (dest - 1 - lst))"
          using 1(1)[OF nz Some c False] 1(2,3) False by simp
        have "src - 1 - (dest - 1 - lst) = src - (dest - lst)" using 1(2,3) False by simp
        then show ?thesis
          using nz ne Some c False ih 1(2,3)
          apply (subst move_forward_n_construct_do_while.simps)
          apply (subst move_forward_n_construct_while.simps)
          apply simp
          done
      qed
    qed
  qed
qed

lemma move_forward_1_construct_loop_eq:
  "move_forward_1_construct_loop a dest position =
   map_option (\<lambda>(_, _, a'). a') (move_forward_n_construct_while a dest (dest + 1) position)"
proof (induction a dest position rule: move_forward_1_construct_loop.induct)
  case (1 a dest position)
  show ?case
  proof (cases "dest \<noteq> position \<and> dest \<noteq> 0")
    case False
    then show ?thesis
      by (subst move_forward_1_construct_loop.simps, subst move_forward_n_construct_while.simps)
         auto
  next
    case True
    show ?thesis
      apply (subst move_forward_1_construct_loop.simps)
      apply (subst move_forward_n_construct_while.simps)
      using True 1
      apply (auto simp: Let_def split: Option.bind_splits)
      done
  qed
qed

lemma move_forward_1_assign_loop_eq:
  "move_forward_1_assign_loop a dest position =
   map_option (\<lambda>(_, _, a'). a') (move_forward_n_assign_while a dest (dest + 1) position)"
proof (induction a dest position rule: move_forward_1_assign_loop.induct)
  case (1 a dest position)
  show ?case
  proof (cases "dest \<noteq> position \<and> dest \<noteq> 0")
    case False
    then show ?thesis
      by (subst move_forward_1_assign_loop.simps, subst move_forward_n_assign_while.simps)
         auto
  next
    case True
    show ?thesis
      apply (subst move_forward_1_assign_loop.simps)
      apply (subst move_forward_n_assign_while.simps)
      using True 1
      apply (auto simp: Let_def split: Option.bind_splits)
      done
  qed
qed

lemma move_forward_n_ok:
  assumes "wf_vector v" and "position \<le> m_size v" and "m_size v + sz \<le> length (m_data v)"
    and "value_has_trivial_destroy T \<or> 0 < sz \<or> position = m_size v"
  shows "move_forward_n T v position sz =
     Some (if value_has_trivial_destroy T \<or> position + sz < m_size v then position + sz
           else m_size v,
           \<lparr>m_data = overwrite (m_data v) (position + sz)
                      (take (m_size v - position) (drop position (m_data v))),
            m_size = m_size v + sz\<rparr>)"
proof -
  define n where "n = m_size v"
  define a where "a = m_data v"
  define r where "r = overwrite a (position + sz) (take (n - position) (drop position a))"
  have nl: "n \<le> length a" and init: "\<forall>i. position \<le> i \<and> i < n \<longrightarrow> a ! i \<noteq> None"
    and pn: "position \<le> n" and nsz: "n + sz \<le> length a"
    using assms by (auto simp: wf_vector_iff n_def a_def)
  have w: "move_forward_n_construct_while a n (n + sz) position = Some (position, position + sz, r)"
    using move_forward_n_construct_while_eq[OF pn refl nsz init] by (simp add: r_def)
  have v1: "v\<lparr>m_size := n + sz, m_data := r\<rparr> = \<lparr>m_data = r, m_size = n + sz\<rparr>" by simp
  consider (td) "value_has_trivial_destroy T"
    | (overlap) "\<not> value_has_trivial_destroy T" "position + sz < n"
    | (apart) "\<not> value_has_trivial_destroy T" "\<not> position + sz < n" by blast
  then have "move_forward_n T v position sz =
     Some (if value_has_trivial_destroy T \<or> position + sz < n then position + sz else n,
           \<lparr>m_data = r, m_size = n + sz\<rparr>)"
  proof cases
    case td
    then show ?thesis
      using w v1 by (simp add: move_forward_n_def iend_def Let_def flip: n_def a_def)
  next
    case apart
    then show ?thesis
      using w v1 by (simp add: move_forward_n_def iend_def Let_def flip: n_def a_def)
  next
    case overlap
    then have sz0: "0 < sz" using assms(4) by (auto simp: n_def)
    define zs where "zs = take sz (drop (n - sz) a)"
    define a1 where "a1 = overwrite a n zs"
    define ys where "ys = take (n - sz - position) (drop position a)"
    have lz: "length zs = sz" using overlap nl by (simp add: zs_def)
    have lyy: "length ys = n - sz - position" using overlap nl by (simp add: ys_def)
    have dw: "move_forward_n_construct_do_while a n (n + sz) n = Some (n - sz, n, a1)"
    proof -
      have "move_forward_n_construct_do_while a n (n + sz) n =
            move_forward_n_construct_while a n (n + sz) (n - sz)"
        using move_forward_n_construct_do_while_eq[of n "n + sz" n a] sz0 overlap by simp
      also have "\<dots> = Some (n - sz, n - sz + sz, overwrite a (n - sz + sz) (take (n - (n - sz)) (drop (n - sz) a)))"
        using init overlap by (intro move_forward_n_construct_while_eq[OF _ refl nsz]) auto
      finally show ?thesis using overlap by (simp add: a1_def zs_def)
    qed
    have l1: "length a1 = length a" using lz nsz by (simp add: a1_def)
    have t1: "take n a1 = take n a" using nl by (simp add: a1_def overwrite_def)
    have init1: "\<forall>i. position \<le> i \<and> i < n \<longrightarrow> a1 ! i \<noteq> None"
    proof (intro allI impI)
      fix i assume i: "position \<le> i \<and> i < n"
      then have "a1 ! i = take n a1 ! i" by simp
      also have "\<dots> = a ! i" using i t1 by simp
      finally show "a1 ! i \<noteq> None" using init i by simp
    qed
    have ty: "take (n - sz - position) (drop position a1) = ys"
    proof -
      have "take (n - sz - position) (drop position a1) =
            take (n - sz - position) (drop position (take n a1))"
        using overlap by (simp add: drop_take)
      also have "\<dots> = ys" using overlap by (simp add: t1 ys_def drop_take)
      finally show ?thesis .
    qed
    have aw: "move_forward_n_assign_while a1 (n - sz) n position =
        Some (position, position + sz, overwrite a1 (position + sz) ys)"
    proof -
      have "move_forward_n_assign_while a1 (n - sz) n position =
        Some (position, position + sz,
              overwrite a1 (position + sz) (take (n - sz - position) (drop position a1)))"
        using overlap nl l1 init1
        by (intro move_forward_n_assign_while_eq) auto
      then show ?thesis unfolding ty .
    qed
    have "overwrite a1 (position + sz) ys = overwrite a (position + sz) (ys @ zs)"
    proof -
      have e: "position + sz + length ys = n" using overlap lyy by simp
      have "overwrite (overwrite a (position + sz + length ys) zs) (position + sz) ys =
            overwrite a (position + sz) (ys @ zs)"
        using lz lyy nsz overlap by (intro overwrite_overwrite) simp
      then show ?thesis by (simp add: e a1_def)
    qed
    also have "ys @ zs = take (n - position) (drop position a)"
    proof -
      have "take (n - position) (drop position a) =
            take ((n - sz - position) + sz) (drop position a)" using overlap by simp
      also have "\<dots> = ys @ take sz (drop (n - sz - position) (drop position a))"
        unfolding take_add ys_def ..
      also have "drop (n - sz - position) (drop position a) = drop (n - sz) a"
        using overlap by simp
      finally show ?thesis by (simp add: zs_def)
    qed
    finally have fin: "overwrite a1 (position + sz) ys = r" by (simp add: r_def)
    show ?thesis
      using overlap dw aw fin v1
      by (simp add: move_forward_n_def iend_def Let_def flip: n_def a_def)
  qed
  then show ?thesis by (simp add: r_def n_def a_def)
qed

subsection \<open>Arrays with a gap\<close>

lemma overwrite_update_below:
  "p < q \<Longrightarrow> q \<le> length a \<Longrightarrow> (overwrite a q zs)[p := y] = overwrite (a[p := y]) q zs"
  by (simp add: overwrite_def list_update_append drop_update_cancel take_update_swap)

lemma relocate_lists:
  assumes "length A = p" and "length G = sz" and "length Z = m" and "p + sz + m \<le> c"
  shows "overwrite (overwrite (replicate p None @ G @ replicate (c - p - sz) None) 0 A) (p + sz) Z =
         A @ G @ Z @ replicate (c - (p + sz + m)) None"
proof -
  have 1: "overwrite (replicate p None @ G @ replicate (c - p - sz) None) 0 A =
        A @ G @ replicate (c - p - sz) None"
    using assms(1) by (simp add: overwrite_def)
  have 2: "c - p - sz - m = c - (p + sz + m)" by simp
  show ?thesis
    unfolding 1 using assms by (simp add: overwrite_def 2)
qed

lemma wf_parts:
  assumes "wf_vector v" and "p \<le> m_size v"
  obtains A Z where "A = take p (m_data v)" and "Z = take (m_size v - p) (drop p (m_data v))"
    and "length A = p" and "length Z = m_size v - p"
    and "list_all (\<lambda>s. s \<noteq> None) A" and "list_all (\<lambda>s. s \<noteq> None) Z"
    and "take p (contents v) = map the A" and "drop p (contents v) = map the Z"
    and "m_data v = A @ Z @ drop (m_size v) (m_data v)"
proof -
  let ?n = "m_size v" and ?a = "m_data v"
  let ?A = "take p ?a" and ?Z = "take (?n - p) (drop p ?a)"
  have nl: "?n \<le> length ?a" and init: "list_all (\<lambda>s. s \<noteq> None) (take ?n ?a)"
    using assms by (auto simp: wf_vector_def)
  have sp: "take ?n ?a = ?A @ ?Z"
    using assms by (metis le_add_diff_inverse take_add)
  have lA: "length ?A = p" and lZ: "length ?Z = ?n - p" using assms nl by auto
  have i: "list_all (\<lambda>s. s \<noteq> None) ?A" "list_all (\<lambda>s. s \<noteq> None) ?Z"
    using init unfolding sp by simp_all
  have c0: "contents v = map the ?A @ map the ?Z"
    unfolding contents_def sp by simp
  have c1: "take p (contents v) = map the ?A" unfolding c0 using lA by simp
  have c2: "drop p (contents v) = map the ?Z" unfolding c0 using lA by simp
  have "?a = take ?n ?a @ drop ?n ?a" by simp
  then have "?a = ?A @ ?Z @ drop ?n ?a" unfolding sp by simp
  then show ?thesis using that[OF refl refl lA lZ i c1 c2] by blast
qed

lemma parts_vector:
  assumes "list_all (\<lambda>s. s \<noteq> None) A" and "list_all (\<lambda>s. s \<noteq> None) Z"
    and "s = length A + length ys + length Z"
  shows "wf_vector \<lparr>m_data = A @ map Some ys @ Z @ R, m_size = s\<rparr>"
    and "contents \<lparr>m_data = A @ map Some ys @ Z @ R, m_size = s\<rparr> = map the A @ ys @ map the Z"
    and "capacity \<lparr>m_data = A @ map Some ys @ Z @ R, m_size = s\<rparr> = s + length R"
proof -
  have tk: "take (length A + length ys + length Z) (A @ map Some ys @ Z @ R) =
        A @ map Some ys @ Z"
    by simp
  show "wf_vector \<lparr>m_data = A @ map Some ys @ Z @ R, m_size = s\<rparr>"
    unfolding wf_vector_def assms(3) using assms(1,2) by (auto simp: tk list_all_iff simp del: take_append)
  show "contents \<lparr>m_data = A @ map Some ys @ Z @ R, m_size = s\<rparr> = map the A @ ys @ map the Z"
    unfolding contents_def assms(3) by (simp add: tk comp_def del: take_append)
  show "capacity \<lparr>m_data = A @ map Some ys @ Z @ R, m_size = s\<rparr> = s + length R"
    using assms(3) by (simp add: capacity_def)
qed

lemma overwrite_parts:
  assumes "a = A @ Z @ R" and "length ys \<le> length R"
  shows "overwrite a (length A) (ys @ Z) = A @ ys @ Z @ drop (length ys) R"
  using assms by (simp add: overwrite_def)

subsection \<open>Single-element insert\<close>

definition emplace_internal ::
  "value_traits \<Rightarrow> 'a vector_base \<Rightarrow> nat \<Rightarrow> 'a reference \<Rightarrow> (nat \<times> 'a vector_base) option" where
  "emplace_internal T v position args =
     (if use_simple_insert T \<or> \<not> full v then do {
        temp \<leftarrow> read_ref v args;
        (newPosition, reallocated, v1) \<leftarrow> make_gap_1 T v position;
        d \<leftarrow> (if value_has_trivial_destroy T \<or> (reallocated \<or> newPosition \<noteq> position)
              then construct (m_data v1) newPosition temp
              else assign (m_data v1) newPosition temp);
        Some (newPosition, v1\<lparr>m_data := d\<rparr>)
      } else do {
        let newCapacity = next_capacity (capacity v);
        let newData = allocate newCapacity;
        let newPosition = position;
        x \<leftarrow> read_ref v args;
        newData1 \<leftarrow> construct newData newPosition x;
        (_, newData2) \<leftarrow> move_construct_from_range newData1 0 (m_data v) 0 position;
        (newSize, newData3) \<leftarrow>
          move_construct_from_range newData2 (newPosition + 1) (m_data v) position (iend v);
        _ \<leftarrow> destroy_range T (m_data v) 0 (iend v);
        Some (newPosition, reset3 newData3 newSize)
      })"

definition insert ::
  "value_traits \<Rightarrow> 'a vector_base \<Rightarrow> nat \<Rightarrow> 'a reference \<Rightarrow> (nat \<times> 'a vector_base) option" where
  "insert T v pos val =
     (let position = pos in
      if position = iend v then emplace_back_internal T v val
      else emplace_internal T v position val)"

lemma move_forward_1_ok:
  assumes "wf_vector v" and "position < m_size v" and "m_size v < length (m_data v)"
  shows "move_forward_1 T v position =
     Some \<lparr>m_data = overwrite (m_data v) (position + 1)
                      (take (m_size v - position) (drop position (m_data v))),
           m_size = m_size v + 1\<rparr>"
proof -
  define n where "n = m_size v"
  define a where "a = m_data v"
  define r where "r = overwrite a (position + 1) (take (n - position) (drop position a))"
  have nl: "n < length a" and init: "\<forall>i. position \<le> i \<and> i < n \<longrightarrow> a ! i \<noteq> None"
    and pn: "position < n"
    using assms by (auto simp: wf_vector_iff n_def a_def)
  have v1: "v\<lparr>m_data := r, m_size := Suc n\<rparr> = \<lparr>m_data = r, m_size = Suc n\<rparr>" by simp
  have "move_forward_1 T v position = Some \<lparr>m_data = r, m_size = n + 1\<rparr>"
  proof (cases "value_has_trivial_destroy T")
    case True
    have "move_forward_n_construct_while a n (n + 1) position = Some (position, position + 1, r)"
      unfolding r_def using pn nl init
      by (intro move_forward_n_construct_while_eq) auto
    then show ?thesis
      using True v1
      by (simp add: move_forward_1_def iend_def move_forward_1_construct_loop_eq Let_def
          flip: n_def a_def)
  next
    case False
    have "a ! (n - 1) \<noteq> None" using init pn by (auto dest!: spec[of _ "n - 1"])
    then obtain x where x: "a ! (n - 1) = Some x" by auto
    have d: "deref a (n - 1) = Some x" using pn nl x by (simp add: deref_def)
    have c: "construct a n x = Some (a[n := Some x])" using nl by (simp add: construct_def)
    define ys where "ys = take (n - 1 - position) (drop position a)"
    have ly: "length ys = n - 1 - position" using nl by (simp add: ys_def)
    have td: "take (n - 1 - position) (drop position (a[n := Some x])) = ys"
      unfolding ys_def using pn by (intro take_drop_update_above) simp
    have "move_forward_n_assign_while (a[n := Some x]) (n - 1) n position =
        Some (position, position + 1,
              overwrite (a[n := Some x]) (position + 1)
                (take (n - 1 - position) (drop position (a[n := Some x]))))"
      using pn nl init by (intro move_forward_n_assign_while_eq) (auto simp: nth_list_update)
    then have aw: "move_forward_n_assign_while (a[n := Some x]) (n - 1) n position =
        Some (position, position + 1, overwrite (a[n := Some x]) (position + 1) ys)"
      unfolding td .
    have "overwrite (a[n := Some x]) (position + 1) ys = overwrite a (position + 1) (ys @ [Some x])"
      using overwrite_snoc[of "position + 1" ys a "Some x"] ly pn nl by simp
    also have "ys @ [Some x] = take (n - position) (drop position a)"
      using take_drop_snoc[OF pn, of a] nl x by (simp add: ys_def)
    finally have ow: "overwrite (a[n := Some x]) (position + 1) ys = r" by (simp add: r_def)
    have n0: "n \<noteq> 0" using pn by simp
    show ?thesis
      using False v1 d c aw ow n0
      by (simp add: move_forward_1_def iend_def move_forward_1_assign_loop_eq Let_def
          flip: n_def a_def)
  qed
  then show ?thesis by (simp add: r_def n_def a_def)
qed

lemma relocate_ok:
  assumes "wf_vector v" and "p \<le> m_size v"
    and "d0 = replicate p None @ G @ replicate (c - p - length G) None"
    and "m_size v + length G \<le> c"
  shows "move_construct_from_range d0 0 (m_data v) 0 p =
           Some (p, overwrite d0 0 (take p (m_data v)))"
    and "move_construct_from_range (overwrite d0 0 (take p (m_data v))) (p + length G)
           (m_data v) p (m_size v) =
         Some (m_size v + length G,
               take p (m_data v) @ G @ take (m_size v - p) (drop p (m_data v)) @
               replicate (c - (m_size v + length G)) None)"
proof -
  let ?n = "m_size v" and ?a = "m_data v"
  obtain A Z where A: "A = take p ?a" and Z: "Z = take (?n - p) (drop p ?a)"
    and lA: "length A = p" and lZ: "length Z = ?n - p"
    using wf_parts[OF assms(1,2)] by metis
  have nl: "?n \<le> length ?a" and init: "\<forall>i<?n. ?a ! i \<noteq> None"
    using assms(1) by (auto simp: wf_vector_iff)
  have l0: "length d0 = c" using assms(2,3,4) by simp
  show m1: "move_construct_from_range d0 0 ?a 0 p = Some (p, overwrite d0 0 (take p ?a))"
    using move_construct_from_range_eq[of 0 p ?a 0 d0] assms(2,4) nl init l0 by simp
  have l1: "length (overwrite d0 0 A) = c" using lA l0 assms(2,4) by simp
  have "move_construct_from_range (overwrite d0 0 A) (p + length G) ?a p ?n =
      Some (p + length G + (?n - p), overwrite (overwrite d0 0 A) (p + length G) Z)"
    unfolding Z using assms(2,4) nl init l1
    by (intro move_construct_from_range_eq) auto
  moreover have "overwrite (overwrite d0 0 A) (p + length G) Z =
      A @ G @ Z @ replicate (c - (p + length G + (?n - p))) None"
    unfolding assms(3) using lA lZ assms(2,4) by (intro relocate_lists) auto
  ultimately show "move_construct_from_range (overwrite d0 0 (take p ?a)) (p + length G) ?a p ?n =
         Some (?n + length G, take p ?a @ G @ take (?n - p) (drop p ?a) @
               replicate (c - (?n + length G)) None)"
    using assms(2) by (simp add: A Z)
qed

lemma destroy_all_ok:
  "wf_vector v \<Longrightarrow> \<exists>a'. destroy_range T (m_data v) 0 (m_size v) = Some a'"
  using destroy_range_ok[of 0 "m_size v" "m_data v" T] by (auto simp: wf_vector_iff)

lemma replicate_split:
  "p + k \<le> c \<Longrightarrow> replicate c x = replicate p x @ replicate k x @ replicate (c - p - k) x"
  by (simp flip: replicate_add)

lemma make_gap_1_full:
  assumes "wf_vector v" and "position \<le> m_size v" and "full v"
  shows "make_gap_1 T v position =
     Some (position, True,
           \<lparr>m_data = take position (m_data v) @ [None] @
                      take (m_size v - position) (drop position (m_data v)) @
                      replicate (next_capacity (capacity v) - (m_size v + 1)) None,
            m_size = m_size v + 1\<rparr>)"
proof -
  let ?c = "next_capacity (capacity v)"
  have cn: "m_size v + length [None :: 'a option] \<le> ?c"
    using assms(3) next_capacity_gt[of "capacity v"] by (simp add: full_def capacity_def)
  have d0: "allocate ?c = replicate position None @ [None :: 'a option] @
      replicate (?c - position - length [None :: 'a option]) None"
    using replicate_split[of position 1 ?c "None :: 'a option"] cn assms(2)
    by (simp add: allocate_def)
  obtain a' where d: "destroy_range T (m_data v) 0 (m_size v) = Some a'"
    using destroy_all_ok[OF assms(1)] by blast
  show ?thesis
    using assms(3) relocate_ok[OF assms(1,2) d0 cn] d
    by (simp add: make_gap_1_def iend_def reset3_def Let_def)
qed

lemma make_gap_1_room:
  assumes "wf_vector v" and "position < m_size v" and "\<not> full v"
  shows "make_gap_1 T v position =
     Some (position, False,
           \<lparr>m_data = overwrite (m_data v) (position + 1)
                      (take (m_size v - position) (drop position (m_data v))),
            m_size = m_size v + 1\<rparr>)"
proof -
  have "m_size v < length (m_data v)" using assms(1,3) by (auto simp: wf_vector_iff full_def)
  from move_forward_1_ok[OF assms(1,2) this, of T] assms(3) show ?thesis
    by (simp add: make_gap_1_def)
qed

lemma emplace_internal_ok:
  assumes "wf_vector v" and "position < m_size v" and "read_ref v args = Some x"
  shows "\<exists>v'. emplace_internal T v position args = Some (position, v') \<and> wf_vector v' \<and>
           contents v' = take position (contents v) @ [x] @ drop position (contents v) \<and>
           m_size v' = m_size v + 1 \<and>
           capacity v' = (if full v then next_capacity (capacity v) else capacity v)"
proof -
  let ?n = "m_size v" and ?a = "m_data v"
  let ?c = "next_capacity (capacity v)"
  have pn: "position \<le> ?n" using assms(2) by simp
  obtain A Z where A: "A = take position ?a" and Z: "Z = take (?n - position) (drop position ?a)"
    and lA: "length A = position" and lZ: "length Z = ?n - position"
    and iA: "list_all (\<lambda>s. s \<noteq> None) A" and iZ: "list_all (\<lambda>s. s \<noteq> None) Z"
    and cA: "take position (contents v) = map the A" and cZ: "drop position (contents v) = map the Z"
    and aAZ: "?a = A @ Z @ drop ?n ?a"
    using wf_parts[OF assms(1) pn] by metis
  have nl: "?n \<le> length ?a" using assms(1) by (simp add: wf_vector_iff)
  have fin: "\<And>R. \<exists>v'. Some (position, \<lparr>m_data = A @ [Some x] @ Z @ R, m_size = ?n + 1\<rparr>) =
        Some (position, v') \<and> wf_vector v' \<and>
        contents v' = take position (contents v) @ [x] @ drop position (contents v) \<and>
        m_size v' = ?n + 1 \<and> capacity v' = ?n + 1 + length R"
  proof -
    fix R
    have s: "?n + 1 = length A + length [x] + length Z" using lA lZ pn by simp
    show "\<exists>v'. Some (position, \<lparr>m_data = A @ [Some x] @ Z @ R, m_size = ?n + 1\<rparr>) =
        Some (position, v') \<and> wf_vector v' \<and>
        contents v' = take position (contents v) @ [x] @ drop position (contents v) \<and>
        m_size v' = ?n + 1 \<and> capacity v' = ?n + 1 + length R"
      using parts_vector[OF iA iZ s, of R] by (simp add: cA cZ)
  qed
  consider (simple_full) "use_simple_insert T" "full v" | (room) "\<not> full v"
    | (complex) "\<not> use_simple_insert T" "full v" by blast
  then show ?thesis
  proof cases
    case simple_full
    let ?R = "replicate (?c - (?n + 1)) (None :: 'a option)"
    have cn: "?n + 1 \<le> ?c"
      using simple_full(2) next_capacity_gt[of "capacity v"] by (simp add: full_def capacity_def)
    have c: "construct (A @ [None] @ Z @ ?R) position x = Some (A @ [Some x] @ Z @ ?R)"
      using lA by (simp add: construct_def list_update_append)
    have e: "emplace_internal T v position args =
        Some (position, \<lparr>m_data = A @ [Some x] @ Z @ ?R, m_size = ?n + 1\<rparr>)"
      using simple_full assms(3) make_gap_1_full[OF assms(1) pn simple_full(2), of T] c
      by (simp add: emplace_internal_def flip: A Z)
    show ?thesis using fin[of ?R] simple_full cn unfolding e by simp
  next
    case room
    let ?R = "drop 1 (drop ?n ?a)"
    have nlt: "?n < length ?a" using room nl by (simp add: full_def)
    let ?g = "overwrite ?a (position + 1) Z"
    have lg: "length ?g = length ?a" using lZ nlt assms(2) by simp
    have gp: "?g ! position \<noteq> None"
      using assms(1,2) nlt lZ by (simp add: nth_overwrite wf_vector_iff)
    have "?g[position := Some x] = overwrite (?a[position := Some x]) (position + 1) Z"
      using nlt assms(2) by (intro overwrite_update_below) auto
    also have "\<dots> = overwrite ?a position (Some x # Z)"
      using overwrite_Cons[of position ?a "Some x" Z] nlt assms(2) by simp
    also have "\<dots> = A @ [Some x] @ Z @ ?R"
      using overwrite_parts[OF aAZ, of "[Some x]"] nlt lA by simp
    finally have g: "?g[position := Some x] = A @ [Some x] @ Z @ ?R" .
    have c: "construct ?g position x = Some (A @ [Some x] @ Z @ ?R)"
      using lg nlt assms(2) g by (simp add: construct_def)
    have as: "assign ?g position x = Some (A @ [Some x] @ Z @ ?R)"
      using lg nlt assms(2) g gp by (simp add: assign_def)
    have e: "emplace_internal T v position args =
        Some (position, \<lparr>m_data = A @ [Some x] @ Z @ ?R, m_size = ?n + 1\<rparr>)"
      using room assms(3) make_gap_1_room[OF assms(1,2) room, of T] c as
      by (simp add: emplace_internal_def flip: Z)
    show ?thesis using fin[of ?R] room nlt unfolding e by (simp add: capacity_def)
  next
    case complex
    let ?R = "replicate (?c - (?n + 1)) (None :: 'a option)"
    have cn: "?n + length [Some x] \<le> ?c"
      using complex(2) next_capacity_gt[of "capacity v"] by (simp add: full_def capacity_def)
    define d0 where "d0 = (allocate ?c)[position := Some x]"
    have d0: "d0 = replicate position None @ [Some x] @
        replicate (?c - position - length [Some x]) None"
      unfolding d0_def
      using replicate_split[of position 1 ?c "None :: 'a option"] cn assms(2)
      by (simp add: allocate_def list_update_append)
    have c: "construct (allocate ?c) position x = Some d0"
      using cn assms(2) by (simp add: construct_def allocate_def d0_def)
    obtain a' where d: "destroy_range T ?a 0 ?n = Some a'"
      using destroy_all_ok[OF assms(1)] by blast
    have e: "emplace_internal T v position args =
        Some (position, \<lparr>m_data = A @ [Some x] @ Z @ ?R, m_size = ?n + 1\<rparr>)"
      using complex assms(3) c relocate_ok[OF assms(1) pn d0 cn] d
      by (simp add: emplace_internal_def iend_def reset3_def Let_def flip: A Z)
    show ?thesis using fin[of ?R] complex cn unfolding e by simp
  qed
qed

lemma read_ref_Elem:
  "wf_vector v \<Longrightarrow> i < m_size v \<Longrightarrow> read_ref v (Elem i) = Some (contents v ! i)"
  by (auto simp: read_ref_def deref_def wf_vector_iff contents_def)

text \<open>
  C2. Inserting the element \<open>v[i]\<close> by reference at any valid position \<open>j\<close> (for instance
  \<open>v.insert(v.begin(), v.back())\<close>) yields the old sequence with the old value of \<open>v[i]\<close> at
  position \<open>j\<close>, whether the insertion shifts the storage holding \<open>v[i]\<close> or reallocates
  it, and for both settings of \<open>use_simple_insert\<close>: the value is read before anything moves.
\<close>

theorem insert_self_reference:
  assumes "wf_vector v" and "i < size_v v" and "j \<le> size_v v"
  shows "\<exists>v'. insert T v j (Elem i) = Some (j, v') \<and> wf_vector v' \<and>
           contents v' = take j (contents v) @ [contents v ! i] @ drop j (contents v)"
proof -
  have r: "read_ref v (Elem i) = Some (contents v ! i)"
    using read_ref_Elem[OF assms(1)] assms(2) by (simp add: size_v_def)
  show ?thesis
  proof (cases "j = m_size v")
    case True
    have "length (contents v) = m_size v" using assms(1) by (simp add: contents_def wf_vector_iff)
    then show ?thesis
      using emplace_back_internal_ok[OF assms(1) r, of T] True
      by (auto simp: insert_def iend_def)
  next
    case False
    then have "j < m_size v" using assms(3) by (simp add: size_v_def)
    from emplace_internal_ok[OF assms(1) this r, of T] False show ?thesis
      by (auto simp: insert_def iend_def)
  qed
qed

theorem insert_self_reference_witness:
  "(\<exists>v'. insert \<lparr>value_has_trivial_destroy = False, use_simple_insert = True\<rparr>
           \<lparr>m_data = [Some 1, Some 2, Some (3::int)], m_size = 3\<rparr> 0 (Elem 2) = Some (0, v') \<and>
         contents v' = [3, 1, 2, 3]) \<and>
   (\<exists>v'. insert \<lparr>value_has_trivial_destroy = False, use_simple_insert = False\<rparr>
           \<lparr>m_data = [Some 1, Some 2, Some (3::int), None], m_size = 3\<rparr> 1 (Elem 2) = Some (1, v') \<and>
         contents v' = [1, 3, 2, 3])"
  using insert_self_reference[of "\<lparr>m_data = [Some 1, Some 2, Some (3::int)], m_size = 3\<rparr>" 2 0
      "\<lparr>value_has_trivial_destroy = False, use_simple_insert = True\<rparr>"]
    insert_self_reference[of "\<lparr>m_data = [Some 1, Some 2, Some (3::int), None], m_size = 3\<rparr>" 2 1
      "\<lparr>value_has_trivial_destroy = False, use_simple_insert = False\<rparr>"]
  by (auto simp: wf_vector_def size_v_def contents_def)

subsection \<open>Filling a range with copies of a value\<close>

text \<open>\<open>construct_range(first, last, val)\<close>, \<open>construct_n(first, n, val)\<close> and
  \<open>assign_range(first, last, val)\<close>. Where the source passes \<open>val\<close> as a reference to an
  element that the loop does not write, the model reads the element once before the loop.\<close>

function construct_range_val ::
  "'a storage \<Rightarrow> nat \<Rightarrow> nat \<Rightarrow> 'a \<Rightarrow> (nat \<times> 'a storage) option" where
  "construct_range_val a first lst val =
     (if first \<noteq> lst then do {
        a' \<leftarrow> construct a first val;
        construct_range_val a' (first + 1) lst val
      } else Some (lst, a))"
  by pat_completeness auto
termination
  by (relation "measure (\<lambda>(a, first, lst, val). length a - first)")
     (auto simp: construct_def split: if_splits)

declare construct_range_val.simps [simp del]

function construct_n_val ::
  "'a storage \<Rightarrow> nat \<Rightarrow> nat \<Rightarrow> 'a \<Rightarrow> (nat \<times> 'a storage) option" where
  "construct_n_val a first n val =
     (if n \<noteq> 0 then do {
        a' \<leftarrow> construct a first val;
        construct_n_val a' (first + 1) (n - 1) val
      } else Some (first, a))"
  by pat_completeness auto
termination
  by (relation "measure (\<lambda>(a, first, n, val). n)") auto

declare construct_n_val.simps [simp del]

function assign_loop_val ::
  "'a storage \<Rightarrow> nat \<Rightarrow> nat \<Rightarrow> 'a \<Rightarrow> (nat \<times> 'a storage) option" where
  "assign_loop_val a first lst val =
     (if first \<noteq> lst then do {
        a' \<leftarrow> assign a first val;
        assign_loop_val a' (first + 1) lst val
      } else Some (lst, a))"
  by pat_completeness auto
termination
  by (relation "measure (\<lambda>(a, first, lst, val). length a - first)")
     (auto simp: assign_def split: if_splits)

declare assign_loop_val.simps [simp del]

definition assign_range_val ::
  "value_traits \<Rightarrow> 'a storage \<Rightarrow> nat \<Rightarrow> nat \<Rightarrow> 'a \<Rightarrow> (nat \<times> 'a storage) option" where
  "assign_range_val T a first lst val =
     (if value_has_trivial_destroy T then construct_range_val a first lst val
      else assign_loop_val a first lst val)"

subsection \<open>Insert of count copies\<close>

text \<open>The source calls \<open>make_gap_n(position)\<close> with the count left out; the model passes
  \<open>count\<close>, the only reading under which the next line (\<open>ranges.first + count\<close>) makes sense.\<close>

definition emplace_n_internal ::
  "value_traits \<Rightarrow> 'a vector_base \<Rightarrow> nat \<Rightarrow> nat \<Rightarrow> 'a reference \<Rightarrow>
     (nat \<times> 'a vector_base) option" where
  "emplace_n_internal T v position count args =
     (if use_simple_insert T \<or> few v count then do {
        temp \<leftarrow> read_ref v args;
        ((ranges_first, ranges_second), _, v1) \<leftarrow> make_gap_n T v position count;
        let newPosition = ranges_first + count;
        d \<leftarrow> (if value_has_trivial_destroy T then
               map_option snd (construct_range_val (m_data v1) ranges_first newPosition temp)
             else do {
               (_, d1) \<leftarrow> construct_range_val (m_data v1) ranges_first ranges_second temp;
               map_option snd (assign_range_val T d1 ranges_second newPosition temp)
             });
        Some (ranges_first, v1\<lparr>m_data := d\<rparr>)
      } else do {
        let newCapacity = best_capacity v (size_v v + count);
        let newData = allocate newCapacity;
        let newPosition = position;
        x \<leftarrow> read_ref v args;
        newData1 \<leftarrow> construct newData newPosition x;
        (lst, newData2) \<leftarrow> construct_n_val newData1 (newPosition + 1) (size_dec count) x;
        (_, newData3) \<leftarrow> move_construct_from_range newData2 0 (m_data v) 0 position;
        (newSize, newData4) \<leftarrow> move_construct_from_range newData3 lst (m_data v) position (iend v);
        _ \<leftarrow> destroy_range T (m_data v) 0 (iend v);
        Some (newPosition, reset3 newData4 newSize)
      })"

definition emplace_back_n_internal ::
  "value_traits \<Rightarrow> 'a vector_base \<Rightarrow> nat \<Rightarrow> 'a reference \<Rightarrow>
     (nat \<times> 'a vector_base) option" where
  "emplace_back_n_internal T v count args =
     (if \<not> full v then do {
        (_, v1) \<leftarrow> emplace_back_internal T v args;
        let count' = size_dec count;
        v2 \<leftarrow> (if many v1 count' then reallocate_to T v1 (best_capacity v1 (size_v v1 + count'))
               else Some v1);
        let position = iend v2 - 1;
        x \<leftarrow> deref (m_data v2) position;
        (e, d) \<leftarrow> construct_n_val (m_data v2) (iend v2) count' x;
        Some (position, v2\<lparr>m_data := d, m_size := e\<rparr>)
      } else if use_simple_insert T then do {
        temp \<leftarrow> read_ref v args;
        v1 \<leftarrow> reallocate_to T v (best_capacity v (size_v v + count));
        let position = iend v1;
        (e, d) \<leftarrow> construct_n_val (m_data v1) position count temp;
        Some (position, v1\<lparr>m_data := d, m_size := e\<rparr>)
      } else do {
        let newCapacity = best_capacity v (size_v v + count);
        let newData = allocate newCapacity;
        let newPosition = size_v v;
        x \<leftarrow> read_ref v args;
        newData1 \<leftarrow> construct newData newPosition x;
        (newSize, newData2) \<leftarrow> construct_n_val newData1 (newPosition + 1) (size_dec count) x;
        (_, newData3) \<leftarrow> move_construct_from_range newData2 0 (m_data v) 0 (iend v);
        _ \<leftarrow> destroy_range T (m_data v) 0 (iend v);
        Some (newPosition, reset3 newData3 newSize)
      })"

definition insert_n ::
  "value_traits \<Rightarrow> 'a vector_base \<Rightarrow> nat \<Rightarrow> nat \<Rightarrow> 'a reference \<Rightarrow>
     (nat \<times> 'a vector_base) option" where
  "insert_n T v pos count val =
     (let position = pos in
      if position = iend v then emplace_back_n_internal T v count val
      else emplace_n_internal T v position count val)"

lemma construct_n_val_overrun:
  "first \<le> length a \<Longrightarrow> length a < first + n \<Longrightarrow> construct_n_val a first n val = None"
proof (induction a first n val rule: construct_n_val.induct)
  case (1 a first n val)
  show ?case
  proof (cases "first < length a")
    case True
    then have c: "construct a first val = Some (a[first := Some val])" by (simp add: construct_def)
    have n0: "n \<noteq> 0" using 1(3) True by auto
    have "construct_n_val (a[first := Some val]) (first + 1) (n - 1) val = None"
      using 1(1)[OF n0 c] True 1(3) n0 by simp
    then show ?thesis using n0 c by (subst construct_n_val.simps) simp
  next
    case False
    then have "construct a first val = None" by (simp add: construct_def)
    moreover have "n \<noteq> 0" using 1(2,3) False by auto
    ultimately show ?thesis by (subst construct_n_val.simps) simp
  qed
qed

text \<open>
  C10. \<open>v.insert(p, 0, x)\<close> should insert nothing and leave size, capacity and elements as
  they were. At \<open>p = end()\<close> the code runs \<open>emplace_back_n_internal(0, x)\<close>. On a vector that
  is not full (here \<open>[1]\<close> in capacity 2) it first appends \<open>x\<close>, then decrements the count
  from 0, which wraps to \<open>SIZE_MAX\<close>, and \<open>construct_n\<close> writes past the end of the array:
  undefined behaviour. On a full vector (here \<open>[1, 2]\<close> in capacity 2) it reallocates to
  \<open>best_capacity(size)\<close>, so the capacity doubles although nothing is inserted. The sibling
  \<open>replace(first, last, count, val)\<close> guards \<open>count > 0\<close> before calling the same helper.
\<close>

theorem insert_zero_count_failing_input:
  "insert_n \<lparr>value_has_trivial_destroy = True, use_simple_insert = True\<rparr>
     \<lparr>m_data = [Some (1::int), None], m_size = 1\<rparr> 1 0 (Val 7) = None \<and>
   emplace_back_internal \<lparr>value_has_trivial_destroy = True, use_simple_insert = True\<rparr>
     \<lparr>m_data = [Some (1::int), None], m_size = 1\<rparr> (Val 7) =
     Some (1, \<lparr>m_data = [Some 1, Some 7], m_size = 2\<rparr>) \<and>
   size_dec 0 = SIZE_MAX \<and>
   insert_n \<lparr>value_has_trivial_destroy = True, use_simple_insert = True\<rparr>
     \<lparr>m_data = [Some (1::int), Some 2], m_size = 2\<rparr> 2 0 (Val 7) =
     Some (2, \<lparr>m_data = [Some 1, Some 2, None, None], m_size = 2\<rparr>)"
proof -
  let ?T = "\<lparr>value_has_trivial_destroy = True, use_simple_insert = True\<rparr>"
  have e: "emplace_back_internal ?T \<lparr>m_data = [Some (1::int), None], m_size = 1\<rparr> (Val 7) =
     Some (1, \<lparr>m_data = [Some 1, Some 7], m_size = 2\<rparr>)"
    by (simp add: emplace_back_internal_def full_def iend_def read_ref_def construct_def)
  have m: "\<not> many \<lparr>m_data = [Some (1::int), Some 7], m_size = 2\<rparr> SIZE_MAX"
    by (simp add: many_def size_add_def size_v_def capacity_def SIZE_MAX_def)
  have o: "construct_n_val [Some (1::int), Some 7] 2 SIZE_MAX 7 = None"
    by (rule construct_n_val_overrun) (simp_all add: SIZE_MAX_def)
  have 1: "insert_n ?T \<lparr>m_data = [Some (1::int), None], m_size = 1\<rparr> 1 0 (Val 7) = None"
    using e m o
    by (simp add: insert_n_def emplace_back_n_internal_def iend_def full_def size_dec_def deref_def)
  have mv: "move_construct_from_range (allocate 4) 0 [Some (1::int), Some 2] 0 2 =
      Some (2, [Some 1, Some 2, None, None])"
    by (simp add: move_construct_from_range.simps deref_def construct_def allocate_def
        numeral_eq_Suc)
  have 2: "insert_n ?T \<lparr>m_data = [Some (1::int), Some 2], m_size = 2\<rparr> 2 0 (Val 7) =
     Some (2, \<lparr>m_data = [Some 1, Some 2, None, None], m_size = 2\<rparr>)"
    using mv
    by (simp add: insert_n_def emplace_back_n_internal_def iend_def full_def read_ref_def
        reallocate_to_def best_capacity_def next_capacity_def capacity_def size_v_def
        really_reallocate_def destroy_range_def reset3_def construct_n_val.simps)
  show ?thesis using 1 2 e by (simp add: size_dec_def)
qed

lemma map_Some_the:
  "list_all (\<lambda>s. s \<noteq> None) A \<Longrightarrow> map (Some \<circ> the) A = A"
  by (induction A) auto

lemma size_add_small: "a + b < 2 ^ 63 \<Longrightarrow> size_add a b = a + b"
  by (simp add: size_add_def)

lemma next_capacity_small: "c < 2 ^ 63 \<Longrightarrow> next_capacity c mod 2 ^ 64 = next_capacity c"
  by (simp add: next_capacity_def)

lemma make_gap_n_realloc:
  assumes "wf_vector v" and "position \<le> m_size v" and "size_v v + sz > capacity v"
    and "size_v v + sz < 2 ^ 63"
  shows "make_gap_n T v position sz =
     Some ((position, position), True,
           \<lparr>m_data = take position (m_data v) @ replicate sz None @
                      take (m_size v - position) (drop position (m_data v)) @
                      replicate (next_capacity (size_v v + sz) - (m_size v + sz)) None,
            m_size = m_size v + sz\<rparr>)"
proof -
  let ?c = "next_capacity (size_v v + sz)"
  let ?G = "replicate sz (None :: 'a option)"
  have cn: "m_size v + length ?G \<le> ?c"
    using next_capacity_gt[of "size_v v + sz"] by (simp add: size_v_def)
  have d0: "allocate ?c = replicate position None @ ?G @ replicate (?c - position - length ?G) None"
    using replicate_split[of position sz ?c "None :: 'a option"] cn assms(2)
    by (simp add: allocate_def)
  obtain a' where d: "destroy_range T (m_data v) 0 (m_size v) = Some a'"
    using destroy_all_ok[OF assms(1)] by blast
  show ?thesis
    unfolding make_gap_n_def size_add_small[OF assms(4)] next_capacity_small[OF assms(4)]
    using assms(3) relocate_ok[OF assms(1,2) d0 cn] d
    by (simp add: iend_def reset3_def Let_def)
qed

text \<open>
  What \<open>make_gap_n(position, count)\<close> does when \<open>size + count > capacity\<close> (and the sum
  stays below \<open>2 ^ 63\<close>): the new buffer holds the elements before \<open>position\<close>, then
  \<open>count\<close> uninitialised slots, then the elements from \<open>position\<close> on, in order, and both
  returned pointers stand at the beginning of the gap. Its capacity is
  \<open>next_capacity(size + count)\<close>, twice the size that is needed.
\<close>

lemma make_gap_n_gap_layout:
  assumes "wf_vector v" and "position \<le> size_v v" and "size_v v + count > capacity v"
    and "size_v v + count < 2 ^ 63"
  shows "\<exists>v'. make_gap_n T v position count = Some ((position, position), True, v') \<and>
           capacity v' = 2 * (size_v v + count) \<and>
           size_v v' = size_v v + count \<and>
           m_data v' = map Some (take position (contents v)) @ replicate count None @
                       map Some (drop position (contents v)) @
                       replicate (capacity v' - (size_v v + count)) None"
proof -
  let ?n = "m_size v" and ?a = "m_data v"
  have pn: "position \<le> ?n" using assms(2) by (simp add: size_v_def)
  obtain A Z where A: "A = take position ?a" and Z: "Z = take (?n - position) (drop position ?a)"
    and lA: "length A = position" and lZ: "length Z = ?n - position"
    and iA: "list_all (\<lambda>s. s \<noteq> None) A" and iZ: "list_all (\<lambda>s. s \<noteq> None) Z"
    and cA: "take position (contents v) = map the A" and cZ: "drop position (contents v) = map the Z"
    using wf_parts[OF assms(1) pn] by metis
  have c2: "next_capacity (size_v v + count) = 2 * (size_v v + count)"
    using assms(3) by (auto simp: next_capacity_def)
  show ?thesis
    unfolding make_gap_n_realloc[OF assms(1) pn assms(3,4)] c2
    using pn lA lZ
    by (simp add: capacity_def size_v_def cA cZ map_Some_the[OF iA] map_Some_the[OF iZ]
        flip: A Z)
qed

text \<open>
  C3. When \<open>make_gap(position, count)\<close> needs a new buffer, its capacity should be
  \<open>best_capacity(size + count) = max(size + count, next_capacity(capacity))\<close>, with the
  elements kept in order around a gap of \<open>count\<close> uninitialised slots. The elements and the
  gap are as the claim says; the capacity is not. \<open>make_gap_n\<close> calls
  \<open>next_capacity(size() + sz)\<close>, the overload whose argument is documented as the current
  capacity, on the size that is needed: with three elements in a buffer of capacity 4, a
  gap of 2 at position 1 gives capacity \<open>next_capacity(5) = 10\<close>, where
  \<open>best_capacity(5) = max(5, next_capacity(4)) = 8\<close>. \<open>make_gap_1\<close> and every other
  reallocating path use \<open>next_capacity()\<close> or \<open>best_capacity(size() + count)\<close>: the same
  \<open>insert(pos, 2, x)\<close> through \<open>emplace_n_internal\<close> gives capacity 10 when
  \<open>use_simple_insert\<close> holds (through \<open>make_gap_n\<close>) and capacity 8 when it does not
  (evaluated below for a trivially destructible element type).
\<close>

theorem make_gap_n_capacity_failing_input:
  "make_gap_n \<lparr>value_has_trivial_destroy = True, use_simple_insert = True\<rparr>
     \<lparr>m_data = [Some 1, Some 2, Some (3::int), None], m_size = 3\<rparr> 1 2 =
     Some ((1, 1), True,
           \<lparr>m_data = [Some 1, None, None, Some 2, Some 3, None, None, None, None, None],
            m_size = 5\<rparr>) \<and>
   capacity \<lparr>m_data = [Some 1, None, None, Some 2, Some (3::int), None, None, None, None, None],
             m_size = 5\<rparr> = 10 \<and>
   best_capacity \<lparr>m_data = [Some 1, Some 2, Some (3::int), None], m_size = 3\<rparr>
     (size_v \<lparr>m_data = [Some 1, Some 2, Some (3::int), None], m_size = 3\<rparr> + 2) = 8 \<and>
   insert_n \<lparr>value_has_trivial_destroy = True, use_simple_insert = True\<rparr>
     \<lparr>m_data = [Some 1, Some 2, Some (3::int), None], m_size = 3\<rparr> 1 2 (Val 7) =
     Some (1, \<lparr>m_data = [Some 1, Some 7, Some 7, Some 2, Some 3, None, None, None, None, None],
               m_size = 5\<rparr>) \<and>
   insert_n \<lparr>value_has_trivial_destroy = True, use_simple_insert = False\<rparr>
     \<lparr>m_data = [Some 1, Some 2, Some (3::int), None], m_size = 3\<rparr> 1 2 (Val 7) =
     Some (1, \<lparr>m_data = [Some 1, Some 7, Some 7, Some 2, Some 3, None, None, None],
               m_size = 5\<rparr>)"
proof -
  let ?v = "\<lparr>m_data = [Some 1, Some 2, Some (3::int), None], m_size = 3\<rparr>"
  let ?S = "\<lparr>value_has_trivial_destroy = True, use_simple_insert = True\<rparr>"
  let ?C = "\<lparr>value_has_trivial_destroy = True, use_simple_insert = False\<rparr>"
  have g: "make_gap_n ?S ?v 1 2 =
     Some ((1, 1), True,
           \<lparr>m_data = [Some 1, None, None, Some 2, Some 3, None, None, None, None, None],
            m_size = 5\<rparr>)"
  proof -
    have "wf_vector ?v" "1 \<le> m_size ?v" "size_v ?v + 2 > capacity ?v" "size_v ?v + 2 < 2 ^ 63"
      by (simp_all add: wf_vector_def size_v_def capacity_def)
    from make_gap_n_realloc[OF this, of ?S] show ?thesis
      by (simp add: size_v_def next_capacity_def numeral_eq_Suc)
  qed
  have b: "best_capacity ?v (size_v ?v + 2) = 8"
    by (simp add: best_capacity_def next_capacity_def capacity_def size_v_def)
  have s: "insert_n ?S ?v 1 2 (Val 7) =
     Some (1, \<lparr>m_data = [Some 1, Some 7, Some 7, Some 2, Some 3, None, None, None, None, None],
               m_size = 5\<rparr>)"
    using g
    by (simp add: insert_n_def emplace_n_internal_def iend_def read_ref_def
        construct_range_val.simps construct_def Let_def)
  have r8: "replicate 8 (None :: int option) = [None, None, None, None, None, None, None, None]"
    by (simp add: numeral_eq_Suc)
  have c: "insert_n ?C ?v 1 2 (Val 7) =
     Some (1, \<lparr>m_data = [Some 1, Some 7, Some 7, Some 2, Some 3, None, None, None],
               m_size = 5\<rparr>)"
    by (simp add: insert_n_def emplace_n_internal_def iend_def read_ref_def few_def
        size_add_def size_v_def capacity_def best_capacity_def next_capacity_def
        allocate_def size_dec_def construct_n_val.simps construct_def
        move_construct_from_range.simps deref_def destroy_range_def
        reset3_def Let_def r8)
  show ?thesis using g b s c by (simp add: capacity_def)
qed

section \<open>Ranges given by iterators\<close>

text \<open>
  A range \<open>[first2, last2)\<close> of iterators that do not point into the vector is the list of
  the values it yields: \<open>first2 != last2\<close> is \<open>xs \<noteq> []\<close>, \<open>*first2\<close> is the head and
  \<open>++first2\<close> the tail. Dereferencing an exhausted iterator is undefined. Moving from such
  a range and copying from it construct the same values.
\<close>

fun copy_construct_from_range :: "'a storage \<Rightarrow> nat \<Rightarrow> 'a list \<Rightarrow> (nat \<times> 'a storage) option" where
  "copy_construct_from_range a first1 [] = Some (first1, a)"
| "copy_construct_from_range a first1 (x # xs) = do {
     a' \<leftarrow> construct a first1 x;
     copy_construct_from_range a' (first1 + 1) xs
   }"

fun copy_assign_from_range_loop :: "'a storage \<Rightarrow> nat \<Rightarrow> 'a list \<Rightarrow> (nat \<times> 'a storage) option" where
  "copy_assign_from_range_loop a first1 [] = Some (first1, a)"
| "copy_assign_from_range_loop a first1 (x # xs) = do {
     a' \<leftarrow> assign a first1 x;
     copy_assign_from_range_loop a' (first1 + 1) xs
   }"

definition copy_assign_from_range ::
  "value_traits \<Rightarrow> 'a storage \<Rightarrow> nat \<Rightarrow> 'a list \<Rightarrow> (nat \<times> 'a storage) option" where
  "copy_assign_from_range T a first1 xs =
     (if value_has_trivial_destroy T then copy_construct_from_range a first1 xs
      else copy_assign_from_range_loop a first1 xs)"

text \<open>\<open>copy_construct_range(first1, last1, first2)\<close>: the destination range drives the loop;
  the rest of the source is returned.\<close>

fun copy_construct_range ::
  "'a storage \<Rightarrow> nat \<Rightarrow> nat \<Rightarrow> 'a list \<Rightarrow> ('a list \<times> 'a storage) option" where
  "copy_construct_range a first1 last1 [] = (if first1 \<noteq> last1 then None else Some ([], a))"
| "copy_construct_range a first1 last1 (x # xs) =
     (if first1 \<noteq> last1 then do {
        a' \<leftarrow> construct a first1 x;
        copy_construct_range a' (first1 + 1) last1 xs
      } else Some (x # xs, a))"

fun copy_assign_range_loop ::
  "'a storage \<Rightarrow> nat \<Rightarrow> nat \<Rightarrow> 'a list \<Rightarrow> ('a list \<times> 'a storage) option" where
  "copy_assign_range_loop a first1 last1 [] = (if first1 \<noteq> last1 then None else Some ([], a))"
| "copy_assign_range_loop a first1 last1 (x # xs) =
     (if first1 \<noteq> last1 then do {
        a' \<leftarrow> assign a first1 x;
        copy_assign_range_loop a' (first1 + 1) last1 xs
      } else Some (x # xs, a))"

definition copy_assign_range ::
  "value_traits \<Rightarrow> 'a storage \<Rightarrow> nat \<Rightarrow> nat \<Rightarrow> 'a list \<Rightarrow> ('a list \<times> 'a storage) option" where
  "copy_assign_range T a first1 last1 xs =
     (if value_has_trivial_destroy T then copy_construct_range a first1 last1 xs
      else copy_assign_range_loop a first1 last1 xs)"

fun copy_construct_range_n ::
  "'a storage \<Rightarrow> nat \<Rightarrow> 'a list \<Rightarrow> nat \<Rightarrow> (nat \<times> 'a list \<times> 'a storage) option" where
  "copy_construct_range_n a dest [] count' = (if count' \<noteq> 0 then None else Some (dest, [], a))"
| "copy_construct_range_n a dest (x # xs) count' =
     (if count' \<noteq> 0 then do {
        a' \<leftarrow> construct a dest x;
        copy_construct_range_n a' (dest + 1) xs (count' - 1)
      } else Some (dest, x # xs, a))"

text \<open>\<open>checked_copy_construct_range(first1, last1, first2, last2)\<close> for iterators that are not
  random access: stops when either range is used up.\<close>

fun checked_copy_construct_range ::
  "'a storage \<Rightarrow> nat \<Rightarrow> nat \<Rightarrow> 'a list \<Rightarrow> (nat \<times> 'a list \<times> 'a storage) option" where
  "checked_copy_construct_range a first1 last1 [] = Some (first1, [], a)"
| "checked_copy_construct_range a first1 last1 (x # xs) =
     (if first1 \<noteq> last1 then do {
        a' \<leftarrow> construct a first1 x;
        checked_copy_construct_range a' (first1 + 1) last1 xs
      } else Some (first1, x # xs, a))"

section \<open>Range insert for multi-pass iterators\<close>

definition insert_range_forward ::
  "value_traits \<Rightarrow> 'a vector_base \<Rightarrow> nat \<Rightarrow> 'a list \<Rightarrow> (nat \<times> 'a vector_base) option" where
  "insert_range_forward T v position xs =
     (let count = length xs in
      if \<not> many v count then do {
        (ufirst, v1) \<leftarrow> move_forward_n T v position count;
        d \<leftarrow> (if value_has_trivial_destroy T then
               map_option (\<lambda>(_, _, d). d) (copy_construct_range_n (m_data v1) position xs count)
             else do {
               let ulast = position + count;
               (first, d1) \<leftarrow> copy_assign_range T (m_data v1) position ufirst xs;
               map_option snd (copy_construct_range d1 ufirst ulast first)
             });
        Some (ufirst, v1\<lparr>m_data := d\<rparr>)
      } else do {
        let oldCapacity = capacity v;
        let newCapacity = best_capacity v (size_v v + count);
        let newData = allocate newCapacity;
        (newPosition, newData1) \<leftarrow> move_construct_from_range newData 0 (m_data v) 0 position;
        (insertedEnd, newData2) \<leftarrow> copy_construct_from_range newData1 newPosition xs;
        (newSize, newData3) \<leftarrow>
          move_construct_from_range newData2 insertedEnd (m_data v) position (iend v);
        _ \<leftarrow> destroy_range T (m_data v) 0 (iend v);
        Some (insertedEnd, reset3 newData3 newSize)
      })"

definition append_range_forward ::
  "value_traits \<Rightarrow> 'a vector_base \<Rightarrow> 'a list \<Rightarrow> (nat \<times> 'a vector_base) option" where
  "append_range_forward T v xs = do {
     let count = length xs;
     v1 \<leftarrow> reallocate_to T v (size_v v + count);
     let oldEnd = iend v1;
     (e, _, d) \<leftarrow> copy_construct_range_n (m_data v1) oldEnd xs count;
     Some (oldEnd, v1\<lparr>m_data := d, m_size := e\<rparr>)
   }"

text \<open>\<open>insert(pos, first, last)\<close> returns the first inserted element, computed from what
  \<open>insert_range\<close> returns and the growth of the size.\<close>

definition insert_forward ::
  "value_traits \<Rightarrow> 'a vector_base \<Rightarrow> nat \<Rightarrow> 'a list \<Rightarrow> (nat \<times> 'a vector_base) option" where
  "insert_forward T v pos xs =
     (let position = pos in
      if position = iend v then append_range_forward T v xs
      else do {
        let oldSize = size_v v;
        (insertedEnd, v') \<leftarrow> insert_range_forward T v position xs;
        let insertedCount = size_v v' - oldSize;
        Some (insertedEnd - insertedCount, v')
      })"

section \<open>Replace\<close>

text \<open>
  In the branch that grows the range inside the existing capacity, \<open>do_replace_range\<close>
  fills the uninitialised part of the gap with \<open>construct_range(ufirst, ulast, first2)\<close>:
  the overload that copies one exemplar value, handed the iterator itself. What element
  that constructs is up to the element type's constructor from the iterator type; it is
  the parameter \<open>of_iterator\<close> here, applied to the remaining source range.

  The return statements of \<open>replace\<close> name variables that are not declared; the model
  returns the state only.
\<close>

definition do_replace_range_forward ::
  "('a list \<Rightarrow> 'a) \<Rightarrow> value_traits \<Rightarrow> 'a vector_base \<Rightarrow> nat \<Rightarrow> nat \<Rightarrow> 'a list \<Rightarrow>
     'a vector_base option" where
  "do_replace_range_forward of_iterator T v first lst xs =
     (let count = length xs; rangeSize = lst - first in
      if count \<le> rangeSize then do {
        (mid, d) \<leftarrow> copy_assign_from_range T (m_data v) first xs;
        map_option snd (erase_internal T (v\<lparr>m_data := d\<rparr>) mid lst)
      } else
        let insertSize = count - rangeSize in
        if \<not> many v insertSize then do {
          (ufirst, v1) \<leftarrow> move_forward_n T v lst insertSize;
          let ulast = first + count;
          (first2, d1) \<leftarrow> copy_assign_range T (m_data v1) first ufirst xs;
          (_, d2) \<leftarrow> construct_range_val d1 ufirst ulast (of_iterator first2);
          Some (v1\<lparr>m_data := d2\<rparr>)
        } else do {
          let oldCapacity = capacity v;
          let newCapacity = best_capacity v (size_v v + insertSize);
          let newData = allocate newCapacity;
          (insertFirst, newData1) \<leftarrow> move_construct_from_range newData 0 (m_data v) 0 first;
          (insertLast, newData2) \<leftarrow> copy_construct_from_range newData1 insertFirst xs;
          (newSize, newData3) \<leftarrow>
            move_construct_from_range newData2 insertLast (m_data v) lst (iend v);
          _ \<leftarrow> destroy_range T (m_data v) 0 (iend v);
          Some (reset3 newData3 newSize)
        })"

definition replace ::
  "('a list \<Rightarrow> 'a) \<Rightarrow> value_traits \<Rightarrow> 'a vector_base \<Rightarrow> nat \<Rightarrow> nat \<Rightarrow> 'a list \<Rightarrow>
     'a vector_base option" where
  "replace of_iterator T v first1 last1 xs =
     (if first1 = last1 then
        (if xs \<noteq> [] then map_option snd (insert_range_forward T v first1 xs) else Some v)
      else if xs = [] then map_option snd (erase_internal T v first1 last1)
      else do_replace_range_forward of_iterator T v first1 last1 xs)"

text \<open>What the documentation says \<open>replace\<close> stands for:
  \<open>v.insert(v.erase(first1, last1), first2, last2)\<close>.\<close>

definition insert_erase ::
  "value_traits \<Rightarrow> 'a vector_base \<Rightarrow> nat \<Rightarrow> nat \<Rightarrow> 'a list \<Rightarrow> 'a vector_base option" where
  "insert_erase T v first1 last1 xs = do {
     (p, v1) \<leftarrow> erase T v first1 last1;
     map_option snd (insert_forward T v1 p xs)
   }"

lemmas eval_defs =
  replace_def do_replace_range_forward_def insert_erase_def insert_forward_def
  insert_range_forward_def append_range_forward_def erase_def erase_internal_def
  truncate_internal_def move_assign_from_range_same_def copy_assign_from_range_def
  copy_assign_range_def many_def few_def size_add_def size_v_def capacity_def iend_def
  full_def move_forward_n_def best_capacity_def next_capacity_def allocate_def reset3_def
  reallocate_to_def really_reallocate_def destroy_range_def
  construct_def assign_def deref_def destroy_def Let_def

lemmas eval_loops =
  move_forward_n_construct_while.simps move_forward_n_construct_do_while.simps
  move_forward_n_assign_while.simps move_construct_from_range.simps
  move_construct_from_range_same.simps move_assign_loop_same.simps destroy_loop.simps
  construct_range_val.simps assign_loop_val.simps construct_n_val.simps

text \<open>
  C6. \<open>replace(first1, last1, first2, last2)\<close> should leave the vector as
  \<open>insert(erase(first1, last1), first2, last2)\<close> would. It does on the claim's example
  (\<open>replace_example\<close> below: \<open>[1,2,3]\<close> becomes \<open>[9,3]\<close>). It does not when the replacement
  is longer than the range, fits the capacity and reaches past the old end, for an element
  type that is not trivially destructible: with \<open>[1, 2]\<close> in capacity 4, replacing the first
  element by \<open>7, 8, 9\<close> gives \<open>7, 8\<close>, then an element constructed from the iterator
  instead of \<open>9\<close>, then \<open>2\<close>. The multi-pass \<open>insert_range\<close> fills the same part of its gap
  with \<open>copy_construct_range(ufirst, ulast, first)\<close>.
\<close>

theorem replace_grow_in_place_failing_input:
  "replace of_iterator \<lparr>value_has_trivial_destroy = False, use_simple_insert = True\<rparr>
     \<lparr>m_data = [Some 1, Some (2::int), None, None], m_size = 2\<rparr> 0 1 [7, 8, 9] =
     Some \<lparr>m_data = [Some 7, Some 8, Some (of_iterator [9]), Some 2], m_size = 4\<rparr> \<and>
   insert_erase \<lparr>value_has_trivial_destroy = False, use_simple_insert = True\<rparr>
     \<lparr>m_data = [Some 1, Some (2::int), None, None], m_size = 2\<rparr> 0 1 [7, 8, 9] =
     Some \<lparr>m_data = [Some 7, Some 8, Some 9, Some 2], m_size = 4\<rparr>"
  by (simp add: eval_defs eval_loops)

lemma replace_example:
  "replace of_iterator \<lparr>value_has_trivial_destroy = td, use_simple_insert = si\<rparr>
     \<lparr>m_data = [Some 1, Some 2, Some (3::int)], m_size = 3\<rparr> 0 2 [9] =
     Some \<lparr>m_data = [Some 9, Some 3, if td then Some 3 else None], m_size = 2\<rparr> \<and>
   insert_erase \<lparr>value_has_trivial_destroy = td, use_simple_insert = si\<rparr>
     \<lparr>m_data = [Some 1, Some 2, Some (3::int)], m_size = 3\<rparr> 0 2 [9] =
     Some \<lparr>m_data = [Some 9, Some 3, if td then Some 3 else None], m_size = 2\<rparr>"
  by (simp add: eval_defs eval_loops)

section \<open>Insert from a single-pass range\<close>

text \<open>\<open>move_construct_range_n(dest, src, count)\<close>, with the source in another array and
  with the source in the array that is written.\<close>

function move_construct_range_n ::
  "'a storage \<Rightarrow> nat \<Rightarrow> 'a storage \<Rightarrow> nat \<Rightarrow> nat \<Rightarrow> (nat \<times> nat \<times> 'a storage) option" where
  "move_construct_range_n dst dest src s count' =
     (if count' \<noteq> 0 then do {
        x \<leftarrow> deref src s;
        dst' \<leftarrow> construct dst dest x;
        move_construct_range_n dst' (dest + 1) src (s + 1) (count' - 1)
      } else Some (dest, s, dst))"
  by pat_completeness auto
termination
  by (relation "measure (\<lambda>(dst, dest, src, s, count'). count')") auto

declare move_construct_range_n.simps [simp del]

function move_construct_range_n_same ::
  "'a storage \<Rightarrow> nat \<Rightarrow> nat \<Rightarrow> nat \<Rightarrow> (nat \<times> nat \<times> 'a storage) option" where
  "move_construct_range_n_same a dest s count' =
     (if count' \<noteq> 0 then do {
        x \<leftarrow> deref a s;
        a' \<leftarrow> construct a dest x;
        move_construct_range_n_same a' (dest + 1) (s + 1) (count' - 1)
      } else Some (dest, s, a))"
  by pat_completeness auto
termination
  by (relation "measure (\<lambda>(a, dest, s, count'). count')") auto

declare move_construct_range_n_same.simps [simp del]

subsection \<open>The chained temporary arrays of \<open>insert_horrible\<close>\<close>

text \<open>
  \<open>do { nextCapacity = next_capacity(nextCapacity); } while(nextCapacity < currentSize);\<close>
\<close>

function insert_horrible_next_capacity :: "nat \<Rightarrow> nat \<Rightarrow> nat" where
  "insert_horrible_next_capacity nextCapacity currentSize =
     (let nextCapacity' = next_capacity nextCapacity in
      if nextCapacity' < currentSize then insert_horrible_next_capacity nextCapacity' currentSize
      else nextCapacity')"
  by pat_completeness auto
termination
  by (relation "measure (\<lambda>(nextCapacity, currentSize). currentSize - nextCapacity)")
     (auto simp: next_capacity_def split: if_splits)

declare insert_horrible_next_capacity.simps [simp del]

text \<open>\<open>while(currentSize > currentCapacity) { currentCapacity = next_capacity(currentCapacity); }\<close>\<close>

function insert_horrible_final_capacity :: "nat \<Rightarrow> nat \<Rightarrow> nat" where
  "insert_horrible_final_capacity currentCapacity currentSize =
     (if currentSize > currentCapacity
      then insert_horrible_final_capacity (next_capacity currentCapacity) currentSize
      else currentCapacity)"
  by pat_completeness auto
termination
  by (relation "measure (\<lambda>(currentCapacity, currentSize). currentSize - currentCapacity)")
     (auto simp: next_capacity_def split: if_splits)

declare insert_horrible_final_capacity.simps [simp del]

text \<open>
  One temporary array: allocated with the given capacity and filled like a circular
  buffer, first \<open>[arrayMid, arrayEnd)\<close> and then, if the source is not used up,
  \<open>[arrayBegin, arrayMid)\<close>. Returns the array, \<open>lastInserted\<close>, the number of elements
  inserted, and the rest of the source.
\<close>

definition insert_horrible_fill ::
  "nat \<Rightarrow> nat \<Rightarrow> 'a list \<Rightarrow> ('a storage \<times> nat \<times> nat \<times> 'a list) option" where
  "insert_horrible_fill currentCapacity currentIndex xs = do {
     let arrayBegin = allocate currentCapacity;
     let arrayEnd = currentCapacity;
     let arrayMid = currentIndex;
     (pos1, xs1, a1) \<leftarrow> checked_copy_construct_range arrayBegin arrayMid arrayEnd xs;
     let insertedCount1 = pos1 - arrayMid;
     if xs1 \<noteq> [] then do {
       (pos2, xs2, a2) \<leftarrow> checked_copy_construct_range a1 0 arrayMid xs1;
       let insertedCount2 = pos2 - 0;
       Some (a2, pos2, insertedCount1 + insertedCount2, xs2)
     } else Some (a1, pos1, insertedCount1, xs1)
   }"

lemma checked_copy_construct_range_rest:
  "checked_copy_construct_range a first1 last1 xs = Some (p, rest, a') \<Longrightarrow>
   first1 \<le> p \<and> length xs = length rest + (p - first1) \<and> (rest \<noteq> [] \<longrightarrow> p = last1) \<and>
   length a' = length a"
proof (induction xs arbitrary: a first1)
  case Nil
  then show ?case by simp
next
  case (Cons x xs)
  show ?case
  proof (cases "first1 = last1")
    case True
    then show ?thesis using Cons.prems by simp
  next
    case False
    then obtain a1 where c: "construct a first1 x = Some a1"
      and r: "checked_copy_construct_range a1 (first1 + 1) last1 xs = Some (p, rest, a')"
      using Cons.prems by (auto split: Option.bind_splits)
    have "length a1 = length a" using c by (auto simp: construct_def split: if_splits)
    then show ?thesis using Cons.IH[OF r] by auto
  qed
qed

lemma insert_horrible_fill_rest:
  assumes "insert_horrible_fill currentCapacity currentIndex xs = Some (a, l, n, rest)"
    and "rest \<noteq> []"
  shows "length xs = length rest + currentCapacity" and "n = currentCapacity"
proof -
  obtain pos1 xs1 a1 where 1:
    "checked_copy_construct_range (allocate currentCapacity) currentIndex currentCapacity xs =
       Some (pos1, xs1, a1)"
    using assms(1) by (auto simp: insert_horrible_fill_def Let_def split: Option.bind_splits)
  note f1 = checked_copy_construct_range_rest[OF 1]
  have x1: "xs1 \<noteq> []"
    using assms 1 by (auto simp: insert_horrible_fill_def Let_def split: Option.bind_splits)
  then obtain pos2 a2 where 2:
    "checked_copy_construct_range a1 0 currentIndex xs1 = Some (pos2, rest, a2)"
    and n: "n = pos1 - currentIndex + pos2"
    using assms 1 by (auto simp: insert_horrible_fill_def Let_def split: Option.bind_splits)
  note f2 = checked_copy_construct_range_rest[OF 2]
  show "length xs = length rest + currentCapacity" "n = currentCapacity"
    using f1 f2 x1 assms(2) n by auto
qed

lemma insert_horrible_next_capacity_ge:
  "currentSize \<le> insert_horrible_next_capacity c currentSize \<and>
   2 \<le> insert_horrible_next_capacity c currentSize \<and>
   c < insert_horrible_next_capacity c currentSize"
proof (induction c currentSize rule: insert_horrible_next_capacity.induct)
  case (1 c currentSize)
  have g: "c < next_capacity c" "2 \<le> next_capacity c" by (auto simp: next_capacity_def)
  show ?case
  proof (cases "next_capacity c < currentSize")
    case True
    then show ?thesis
      using 1[OF refl True] g
      by (subst (1 2 3) insert_horrible_next_capacity.simps) (simp add: Let_def)
  next
    case False
    then show ?thesis
      using g by (subst (1 2 3) insert_horrible_next_capacity.simps) (simp add: Let_def)
  qed
qed

text \<open>
  The loop that allocates and fills temporary arrays until the source is used up. The
  source keeps the arrays in a linked list of blocks of seven, allocated on the stack;
  the model keeps them in one list, in the order of allocation. Returns the arrays,
  \<open>currentSize\<close>, \<open>currentCapacity\<close> and \<open>lastInserted\<close>.
\<close>

function insert_horrible_arrays ::
  "nat \<Rightarrow> nat \<Rightarrow> nat \<Rightarrow> 'a list \<Rightarrow> ('a storage list \<times> nat \<times> nat \<times> nat) option" where
  "insert_horrible_arrays currentSize currentCapacity currentIndex xs =
     (let currentCapacity' = insert_horrible_next_capacity currentCapacity currentSize in
      case insert_horrible_fill currentCapacity' currentIndex xs of
        None \<Rightarrow> None
      | Some (a, lastInserted, insertedCount, xs') \<Rightarrow>
          let currentSize' = currentSize + insertedCount;
              currentIndex' = currentIndex + insertedCount
          in if xs' \<noteq> [] then
               (case insert_horrible_arrays currentSize' currentCapacity' currentIndex' xs' of
                  None \<Rightarrow> None
                | Some (arrays, r) \<Rightarrow> Some (a # arrays, r))
             else Some ([a], currentSize', currentCapacity', lastInserted))"
  by pat_completeness auto
termination
proof (relation "measure (\<lambda>(currentSize, currentCapacity, currentIndex, xs). length xs)")
  show "wf (measure (\<lambda>(currentSize, currentCapacity, currentIndex, xs). length xs))" by simp
next
  fix currentSize currentCapacity currentIndex :: nat and xs :: "'a list"
    and c' x2 a y l z n xs' s' i'
  assume "c' = insert_horrible_next_capacity currentCapacity currentSize"
    and f: "insert_horrible_fill c' currentIndex xs = Some x2"
    and "(a, y) = x2" "(l, z) = y" "(n, xs') = z"
    and "s' = currentSize + n" "i' = currentIndex + n" "xs' \<noteq> []"
  then have "insert_horrible_fill c' currentIndex xs = Some (a, l, n, xs')" by auto
  from insert_horrible_fill_rest[OF this \<open>xs' \<noteq> []\<close>]
    insert_horrible_next_capacity_ge[of currentSize currentCapacity]
    \<open>c' = insert_horrible_next_capacity currentCapacity currentSize\<close>
  show "((s', c', i', xs'), currentSize, currentCapacity, currentIndex, xs)
        \<in> measure (\<lambda>(currentSize, currentCapacity, currentIndex, xs). length xs)"
    by simp
qed

declare insert_horrible_arrays.simps [simp del]

text \<open>The result of \<open>insert_horrible\<close>: the array, and one past the last element inserted
  from the source; \<open>newCapacity\<close> is the length of \<open>newData\<close>.\<close>

record 'a horrible_insert_helper =
  newData :: "'a storage"
  newSize :: nat

text \<open>Moving the full temporary arrays into the final array, in index order.\<close>

fun insert_horrible_combine ::
  "value_traits \<Rightarrow> 'a storage \<Rightarrow> nat \<Rightarrow> nat \<Rightarrow> 'a storage list \<Rightarrow>
     (nat \<times> nat \<times> 'a storage) option" where
  "insert_horrible_combine T finalArray combinePosition combineIndex [] =
     Some (combinePosition, combineIndex, finalArray)"
| "insert_horrible_combine T finalArray combinePosition combineIndex (a # arrays) = do {
     let arrayEnd = length a;
     let arrayMid = combineIndex;
     let arrayCapacity = length a;
     (combinePosition1, f1) \<leftarrow> move_construct_from_range finalArray combinePosition a arrayMid arrayEnd;
     (combinePosition2, f2) \<leftarrow> move_construct_from_range f1 combinePosition1 a 0 arrayMid;
     _ \<leftarrow> destroy_range T a 0 arrayEnd;
     insert_horrible_combine T f2 combinePosition2 (combineIndex + arrayCapacity) arrays
   }"

declare insert_horrible_combine.simps [simp del]

definition insert_horrible ::
  "value_traits \<Rightarrow> nat \<Rightarrow> nat \<Rightarrow> nat \<Rightarrow> 'a list \<Rightarrow> 'a horrible_insert_helper option" where
  "insert_horrible T index oldSize oldCapacity xs = do {
     (arrays, currentSize, currentCapacity0, lastInserted) \<leftarrow>
       insert_horrible_arrays oldSize oldCapacity index xs;
     let lastArrayBad = (currentSize > currentCapacity0);
     let currentCapacity = insert_horrible_final_capacity currentCapacity0 currentSize;
     let lastArray = last arrays;
     let finalArray = (if lastArrayBad then allocate currentCapacity else lastArray);
     (combinePosition, combineIndex, finalArray1) \<leftarrow>
       insert_horrible_combine T finalArray index index (butlast arrays);
     if lastArrayBad then do {
       let arrayEnd = length lastArray;
       let arrayMid = combineIndex;
       if lastInserted \<le> arrayMid then do {
         (combinePosition1, f1) \<leftarrow>
           move_construct_from_range finalArray1 combinePosition lastArray arrayMid arrayEnd;
         (combinePosition2, f2) \<leftarrow>
           move_construct_from_range f1 combinePosition1 lastArray 0 lastInserted;
         lastArray1 \<leftarrow> destroy_range T lastArray arrayMid arrayEnd;
         _ \<leftarrow> destroy_range T lastArray1 0 lastInserted;
         Some \<lparr>newData = f2, newSize = combinePosition2\<rparr>
       } else do {
         (combinePosition1, f1) \<leftarrow>
           move_construct_from_range finalArray1 combinePosition lastArray arrayMid lastInserted;
         _ \<leftarrow> destroy_range T lastArray arrayMid lastInserted;
         Some \<lparr>newData = f1, newSize = combinePosition1\<rparr>
       }
     } else Some \<lparr>newData = finalArray1, newSize = lastInserted\<rparr>
   }"

subsection \<open>Appending a single-pass range\<close>

definition append_range_input ::
  "value_traits \<Rightarrow> 'a vector_base \<Rightarrow> 'a list \<Rightarrow> (nat \<times> 'a vector_base) option" where
  "append_range_input T v0 xs = do {
     let v = (if m_data v0 = [] then reset3 (allocate 16) 0 else v0);
     let oldSize = size_v v;
     (v1, first) \<leftarrow> (if \<not> full v then do {
         (position, first, d) \<leftarrow> checked_copy_construct_range (m_data v) (iend v) (capacity v) xs;
         Some (v\<lparr>m_data := d, m_size := position\<rparr>, first)
       } else Some (v, xs));
     v2 \<leftarrow> (if first \<noteq> [] then do {
         let oldCapacity = capacity v1;
         horrible \<leftarrow> insert_horrible T oldCapacity oldCapacity oldCapacity first;
         (_, _, d) \<leftarrow> move_construct_range_n (newData horrible) 0 (m_data v1) 0 oldCapacity;
         _ \<leftarrow> destroy_range T (m_data v1) 0 (iend v1);
         Some (reset3 d (newSize horrible))
       } else Some v1);
     Some (oldSize, v2)
   }"

subsection \<open>Inserting a single-pass range before the end\<close>

text \<open>Modelled from the spec: \<open>remainder()\<close> is called by \<open>insert_range\<close> but declared nowhere
  in the sources; the comment at the call names what it is, the available capacity.\<close>

definition remainder :: "'a vector_base \<Rightarrow> nat" where
  "remainder v = available v"

text \<open>
  The old ranges \<open>oldRanges[0..3]\<close> are pointer pairs into the vector's array (prefix, the
  constructed part of the free capacity, suffix) and into the temporary array. The part of
  \<open>insert_range\<close> after its early exits, which recombines them around the result of
  \<open>insert_horrible\<close>, is a function of its own here; the vector it is given is the vector
  as it is at that point.
\<close>

definition insert_range_input_horrible ::
  "value_traits \<Rightarrow> 'a vector_base \<Rightarrow> nat \<Rightarrow> 'a storage \<Rightarrow> nat \<Rightarrow> nat \<Rightarrow> 'a list \<Rightarrow>
     (nat \<times> 'a vector_base) option" where
  "insert_range_input_horrible T v position tempData tempSize fallbackEnd first = do {
     let suffixSize = iend v - position;
     let oldIndex = position;
     let newIndex = (position - 0) + (tempSize - 0) + (fallbackEnd - iend v);
     horrible \<leftarrow> insert_horrible T newIndex (newIndex + suffixSize) (capacity v) first;
     (r1, d1) \<leftarrow> move_construct_from_range (newData horrible) 0 (m_data v) 0 position;
     (r2, d2) \<leftarrow> move_construct_from_range d1 r1 tempData 0 tempSize;
     (_, d3) \<leftarrow> move_construct_from_range d2 r2 (m_data v) (iend v) fallbackEnd;
     (newNewSize, d4) \<leftarrow>
       move_construct_from_range d3 (newSize horrible) (m_data v) position (iend v);
     o1 \<leftarrow> destroy_range T (m_data v) 0 position;
     _ \<leftarrow> destroy_range T tempData 0 tempSize;
     o2 \<leftarrow> destroy_range T o1 (iend v) fallbackEnd;
     _ \<leftarrow> destroy_range T o2 position (iend v);
     Some (oldIndex, reset3 d4 newNewSize)
   }"

text \<open>
  The early exit hands the temporary array to the multi-pass \<open>insert_range\<close> through move
  iterators: the model hands over the values it holds. The overload of \<open>insert_range\<close>
  that selects by iterator category is written \<open>insert_range(first, last, tag())\<close>, without
  the position; the model calls the overload for the category with the position.
\<close>

definition insert_range_input ::
  "value_traits \<Rightarrow> 'a vector_base \<Rightarrow> nat \<Rightarrow> 'a list \<Rightarrow> (nat \<times> 'a vector_base) option" where
  "insert_range_input T v position xs =
     (if xs = [] then Some (position, v)
      else
        let suffixSize = iend v - position;
            remainderSize = remainder v;
            suffixSmaller = suffixSize < remainderSize
        in
        if \<not> full v then do {
          let tempCapacity = (if suffixSmaller then suffixSize else remainderSize);
          let tempData = allocate tempCapacity;
          (tempSize, first, tempData1) \<leftarrow>
            checked_copy_construct_range tempData 0 tempCapacity xs;
          if first = [] then do {
            (_, v') \<leftarrow> insert_range_forward T v position (map the (take tempSize tempData1));
            _ \<leftarrow> destroy_range T tempData1 0 tempSize;
            Some (position, v')
          } else if suffixSmaller then do {
            (fallbackEnd, first', d) \<leftarrow>
              checked_copy_construct_range (m_data v) (iend v) (capacity v - suffixSize) first;
            if first' = [] then do {
              (e, _, d1) \<leftarrow> move_construct_range_n_same d fallbackEnd position suffixSize;
              (_, _, d2) \<leftarrow> move_construct_range_n d1 position tempData1 0 suffixSize;
              _ \<leftarrow> destroy_range T tempData1 0 tempSize;
              Some (position, v\<lparr>m_data := d2, m_size := e\<rparr>)
            } else
              insert_range_input_horrible T (v\<lparr>m_data := d\<rparr>) position tempData1 tempSize
                fallbackEnd first'
          } else insert_range_input_horrible T v position tempData1 tempSize (iend v) first
        } else insert_range_input_horrible T v position [] 0 (iend v) xs)"

definition insert_input ::
  "value_traits \<Rightarrow> 'a vector_base \<Rightarrow> nat \<Rightarrow> 'a list \<Rightarrow> (nat \<times> 'a vector_base) option" where
  "insert_input T v pos xs =
     (let position = pos in
      if position = iend v then append_range_input T v xs
      else do {
        let oldSize = size_v v;
        (insertedEnd, v') \<leftarrow> insert_range_input T v position xs;
        let insertedCount = size_v v' - oldSize;
        Some (insertedEnd - insertedCount, v')
      })"

lemma checked_copy_construct_range_eq:
  "first1 \<le> last1 \<Longrightarrow> last1 \<le> length a \<Longrightarrow>
   checked_copy_construct_range a first1 last1 xs =
     Some (first1 + min (last1 - first1) (length xs),
           drop (min (last1 - first1) (length xs)) xs,
           overwrite a first1 (map Some (take (min (last1 - first1) (length xs)) xs)))"
proof (induction xs arbitrary: a first1)
  case Nil
  then show ?case by simp
next
  case (Cons x xs)
  show ?case
  proof (cases "first1 = last1")
    case True
    then show ?thesis by simp
  next
    case False
    then have lt: "first1 < last1" using Cons.prems by simp
    then have fl: "first1 < length a" using Cons.prems by simp
    have c: "construct a first1 x = Some (a[first1 := Some x])"
      using fl by (simp add: construct_def)
    have m: "min (last1 - first1) (length (x # xs)) = Suc (min (last1 - Suc first1) (length xs))"
      using lt by (auto simp: min_def)
    have ih: "checked_copy_construct_range (a[first1 := Some x]) (Suc first1) last1 xs =
      Some (Suc first1 + min (last1 - Suc first1) (length xs),
            drop (min (last1 - Suc first1) (length xs)) xs,
            overwrite (a[first1 := Some x]) (Suc first1)
              (map Some (take (min (last1 - Suc first1) (length xs)) xs)))"
      using Cons.IH[of "Suc first1" "a[first1 := Some x]"] lt Cons.prems by simp
    show ?thesis
      unfolding m using False c ih by (simp add: overwrite_Cons[OF fl])
  qed
qed

lemma insert_horrible_fill_first_pass:
  assumes "currentIndex \<le> c" and "length xs \<le> c - currentIndex"
  shows "insert_horrible_fill c currentIndex xs =
     Some (replicate currentIndex None @ map Some xs @
             replicate (c - currentIndex - length xs) None,
           currentIndex + length xs, length xs, [])"
proof -
  have k: "min (c - currentIndex) (length xs) = length xs" using assms by simp
  have 1: "checked_copy_construct_range (allocate c) currentIndex c xs =
      Some (currentIndex + length xs, [], overwrite (allocate c) currentIndex (map Some xs))"
    using checked_copy_construct_range_eq[of currentIndex c "allocate c" xs] assms
    unfolding k by (simp add: allocate_def)
  have "overwrite (allocate c) currentIndex (map Some xs) =
      replicate currentIndex None @ map Some xs @ replicate (c - currentIndex - length xs) None"
    using assms by (simp add: overwrite_def allocate_def)
  then show ?thesis
    by (simp add: insert_horrible_fill_def 1 Let_def)
qed

lemma insert_horrible_fill_wrapped:
  assumes "currentIndex \<le> c" and "c - currentIndex < length xs"
  shows "insert_horrible_fill c currentIndex xs =
     Some (map Some (take (min currentIndex (length xs - (c - currentIndex)))
                      (drop (c - currentIndex) xs)) @
             replicate (currentIndex - min currentIndex (length xs - (c - currentIndex))) None @
             map Some (take (c - currentIndex) xs),
           min currentIndex (length xs - (c - currentIndex)),
           c - currentIndex + min currentIndex (length xs - (c - currentIndex)),
           drop (c - currentIndex + min currentIndex (length xs - (c - currentIndex))) xs)"
proof -
  define k1 where "k1 = c - currentIndex"
  define xs1 where "xs1 = drop k1 xs"
  define k2 where "k2 = min currentIndex (length xs1)"
  define a1 where "a1 = overwrite (allocate c) currentIndex (map Some (take k1 xs))"
  have k: "min (c - currentIndex) (length xs) = k1" using assms by (simp add: k1_def)
  have 1: "checked_copy_construct_range (allocate c) currentIndex c xs =
      Some (currentIndex + k1, xs1, a1)"
    using checked_copy_construct_range_eq[of currentIndex c "allocate c" xs] assms(1)
    unfolding k by (simp add: allocate_def xs1_def a1_def)
  have a1: "a1 = replicate currentIndex None @ map Some (take k1 xs)"
    using assms by (simp add: a1_def overwrite_def allocate_def k1_def)
  have l1: "length a1 = c" using assms by (simp add: a1 k1_def)
  have x1: "xs1 \<noteq> []" using assms by (simp add: xs1_def k1_def)
  have 2: "checked_copy_construct_range a1 0 currentIndex xs1 =
      Some (0 + k2, drop k2 xs1, overwrite a1 0 (map Some (take k2 xs1)))"
    using checked_copy_construct_range_eq[of 0 currentIndex a1 xs1] assms(1) l1
    by (simp add: k2_def)
  have lk2: "length (take k2 xs1) = k2" by (simp add: k2_def)
  have a2: "overwrite a1 0 (map Some (take k2 xs1)) =
      map Some (take k2 xs1) @ replicate (currentIndex - k2) None @ map Some (take k1 xs)"
    using lk2 by (simp add: a1 overwrite_def k2_def)
  have f: "insert_horrible_fill c currentIndex xs =
      Some (map Some (take k2 xs1) @ replicate (currentIndex - k2) None @ map Some (take k1 xs),
            k2, k1 + k2, drop k2 xs1)"
    using x1 by (simp add: insert_horrible_fill_def 1 2 a2 Let_def)
  have lx: "length xs1 = length xs - k1" by (simp add: xs1_def)
  show ?thesis
    using f unfolding k2_def lx unfolding xs1_def k1_def by (simp add: add.commute)
qed

text \<open>What the last temporary array holds: the elements \<open>ys\<close>, laid out from index \<open>i\<close> on
  and wrapped round to the beginning when they reach the end of the array.\<close>

definition last_array_ok :: "nat \<Rightarrow> nat \<Rightarrow> 'a list \<Rightarrow> 'a storage \<Rightarrow> nat \<Rightarrow> bool" where
  "last_array_ok C i ys arr L =
     (i \<le> C \<and> ys \<noteq> [] \<and> length ys \<le> C \<and>
      (if length ys \<le> C - i
       then arr = replicate i None @ map Some ys @ replicate (C - i - length ys) None \<and>
            L = i + length ys
       else arr = map Some (drop (C - i) ys) @ replicate (C - length ys) None @
                  map Some (take (C - i) ys) \<and>
            L = length ys - (C - i)))"

lemma list_all_map_Some [simp]: "list_all (\<lambda>s. s \<noteq> None) (map Some xs)"
  by (simp add: list_all_iff)

lemma move_construct_from_range_lists:
  assumes "src = P @ map Some A @ R" and "length P = s" and "e = s + length A"
    and "q + length A \<le> length F"
  shows "move_construct_from_range F q src s e = Some (q + length A, overwrite F q (map Some A))"
proof -
  have "take (e - s) (drop s src) = map Some A" using assms(1,2,3) by simp
  moreover have "\<forall>i. s \<le> i \<and> i < e \<longrightarrow> src ! i \<noteq> None"
    using assms(1,2,3) by (auto simp: nth_append)
  moreover have "s \<le> e" "e \<le> length src" using assms(1,2,3) by auto
  ultimately show ?thesis
    using move_construct_from_range_eq[of s e src q F] assms(3,4) by simp
qed

lemma destroy_range_lists:
  assumes "src = P @ map Some A @ R" and "length P = s" and "e = s + length A"
  shows "\<exists>a'. destroy_range T src s e = Some a' \<and> length a' = length src \<and> take s a' = take s src"
proof -
  have "\<forall>i. s \<le> i \<and> i < e \<longrightarrow> src ! i \<noteq> None"
    using assms by (auto simp: nth_append)
  moreover have "s \<le> e" "e \<le> length src" using assms by auto
  ultimately show ?thesis using destroy_range_ok[of s e src T] by simp
qed

lemma overwrite_append:
  "q + length ys + length zs \<le> length F \<Longrightarrow>
   overwrite (overwrite F q ys) (q + length ys) zs = overwrite F q (ys @ zs)"
  by (simp add: overwrite_def ac_simps)

lemma insert_horrible_combine_step:
  assumes "arr = map Some B @ map Some A" and "q + length A + length B \<le> length F"
  shows "insert_horrible_combine T F q (length B) (arr # arrays) =
         insert_horrible_combine T (overwrite F q (map Some (A @ B)))
           (q + length A + length B) (length B + length arr) arrays"
proof -
  have 1: "move_construct_from_range F q arr (length B) (length arr) =
      Some (q + length A, overwrite F q (map Some A))"
    using assms by (intro move_construct_from_range_lists[where P = "map Some B" and R = "[]"]) auto
  have 2: "move_construct_from_range (overwrite F q (map Some A)) (q + length A) arr 0 (length B) =
      Some (q + length A + length B,
            overwrite (overwrite F q (map Some A)) (q + length A) (map Some B))"
    using assms
    by (intro move_construct_from_range_lists[where P = "[]" and R = "map Some A"]) auto
  have 3: "overwrite (overwrite F q (map Some A)) (q + length A) (map Some B) =
      overwrite F q (map Some (A @ B))"
    using overwrite_append[of q "map Some A" "map Some B" F] assms(2) by simp
  obtain a' where d: "destroy_range T arr 0 (length arr) = Some a'"
    using destroy_range_lists[of arr "[]" "B @ A" "[]" 0 "length arr" T] assms(1) by auto
  show ?thesis
    using 1 2 d by (simp add: 3 Let_def insert_horrible_combine.simps)
qed

lemma insert_horrible_arrays_ok:
  "currentIndex \<le> currentSize \<Longrightarrow> xs \<noteq> [] \<Longrightarrow>
   \<exists>arrays C L m.
     insert_horrible_arrays currentSize currentCapacity currentIndex xs =
       Some (arrays, currentSize + length xs, C, L) \<and>
     arrays \<noteq> [] \<and> m < length xs \<and> length (last arrays) = C \<and>
     last_array_ok C (currentIndex + m) (drop m xs) (last arrays) L \<and>
     (\<forall>T F. currentIndex + m \<le> length F \<longrightarrow>
        insert_horrible_combine T F currentIndex currentIndex (butlast arrays) =
          Some (currentIndex + m, currentIndex + m,
                overwrite F currentIndex (map Some (take m xs))))"
proof (induction currentSize currentCapacity currentIndex xs
       rule: insert_horrible_arrays.induct)
  case (1 currentSize currentCapacity currentIndex xs)
  define c where "c = insert_horrible_next_capacity currentCapacity currentSize"
  have cs: "currentSize \<le> c" and c2: "2 \<le> c"
    using insert_horrible_next_capacity_ge[of currentSize currentCapacity] by (auto simp: c_def)
  have ic: "currentIndex \<le> c" using cs "1.prems"(1) by simp
  consider (first) "length xs \<le> c - currentIndex"
    | (wrapped) "c - currentIndex < length xs" "length xs \<le> c"
    | (full) "c < length xs" by linarith
  then show ?case
  proof cases
    case first
    define arr where "arr = replicate currentIndex None @ map Some xs @
                replicate (c - currentIndex - length xs) None"
    have r: "insert_horrible_arrays currentSize currentCapacity currentIndex xs =
        Some ([arr], currentSize + length xs, c, currentIndex + length xs)"
      by (subst insert_horrible_arrays.simps)
         (simp add: insert_horrible_fill_first_pass[OF ic first] Let_def arr_def flip: c_def)
    have l: "last_array_ok c (currentIndex + 0) (drop 0 xs) arr (currentIndex + length xs)"
      using first ic "1.prems"(2) by (simp add: last_array_ok_def arr_def)
    have len: "length arr = c" using first ic by (simp add: arr_def)
    show ?thesis
      unfolding r
      apply (rule exI[of _ "[arr]"], rule exI[of _ c], rule exI[of _ "currentIndex + length xs"], rule exI[of _ 0])
      using l len "1.prems"(2) by (simp add: insert_horrible_combine.simps)
  next
    case wrapped
    define k2 where "k2 = length xs - (c - currentIndex)"
    have m2: "min currentIndex (length xs - (c - currentIndex)) = k2"
      using wrapped ic by (simp add: k2_def)
    define arr where "arr = map Some (drop (c - currentIndex) xs) @ replicate (c - length xs) None @
                map Some (take (c - currentIndex) xs)"
    have t: "take k2 (drop (c - currentIndex) xs) = drop (c - currentIndex) xs"
      by (simp add: k2_def)
    have e1: "currentIndex - k2 = c - length xs" using wrapped ic by (simp add: k2_def)
    have e2: "c - currentIndex + k2 = length xs" using wrapped ic by (simp add: k2_def)
    have f: "insert_horrible_fill c currentIndex xs = Some (arr, k2, length xs, [])"
      using insert_horrible_fill_wrapped[OF ic wrapped(1)] unfolding m2 t e1 e2 arr_def by simp
    have r: "insert_horrible_arrays currentSize currentCapacity currentIndex xs =
        Some ([arr], currentSize + length xs, c, k2)"
      by (subst insert_horrible_arrays.simps) (simp add: f Let_def flip: c_def)
    have l: "last_array_ok c (currentIndex + 0) (drop 0 xs) arr k2"
      using wrapped ic "1.prems"(2) by (simp add: last_array_ok_def k2_def arr_def)
    have len: "length arr = c" using wrapped ic by (simp add: arr_def)
    show ?thesis
      unfolding r
      apply (rule exI[of _ "[arr]"], rule exI[of _ c], rule exI[of _ k2], rule exI[of _ 0])
      using l len "1.prems"(2) by (simp add: insert_horrible_combine.simps)
  next
    case full
    define A where "A = take (c - currentIndex) xs"
    define B where "B = take currentIndex (drop (c - currentIndex) xs)"
    define rest where "rest = drop c xs"
    define arr where "arr = map Some B @ map Some A"
    have lA: "length A = c - currentIndex" using full ic by (simp add: A_def)
    have lB: "length B = currentIndex" using full ic by (simp add: B_def)
    have AB: "A @ B = take c xs"
    proof -
      have "take c xs = take ((c - currentIndex) + currentIndex) xs" using ic by simp
      also have "\<dots> = A @ B" unfolding take_add A_def B_def ..
      finally show ?thesis ..
    qed
    have m2: "min currentIndex (length xs - (c - currentIndex)) = currentIndex"
      using full ic by simp
    have rn: "rest \<noteq> []" using full by (simp add: rest_def)
    have f: "insert_horrible_fill c currentIndex xs = Some (arr, currentIndex, c, rest)"
      using insert_horrible_fill_wrapped[OF ic, of xs] full ic unfolding m2
      by (simp add: arr_def A_def B_def rest_def)
    obtain arrays C L m where
      ih: "insert_horrible_arrays (currentSize + c) c (currentIndex + c) rest =
             Some (arrays, currentSize + c + length rest, C, L)"
      and ne: "arrays \<noteq> []" and ml: "m < length rest" and lenl: "length (last arrays) = C"
      and lok: "last_array_ok C (currentIndex + c + m) (drop m rest) (last arrays) L"
      and comb: "\<And>T F. currentIndex + c + m \<le> length F \<Longrightarrow>
        insert_horrible_combine T F (currentIndex + c) (currentIndex + c) (butlast arrays) =
          Some (currentIndex + c + m, currentIndex + c + m,
                overwrite F (currentIndex + c) (map Some (take m rest)))"
      using "1.IH"[OF c_def f refl refl refl refl refl rn] "1.prems"(1) rn by auto
    have lr: "length rest = length xs - c" by (simp add: rest_def)
    have r: "insert_horrible_arrays currentSize currentCapacity currentIndex xs =
        Some (arr # arrays, currentSize + length xs, C, L)"
      using full rn lr
      by (subst insert_horrible_arrays.simps) (simp add: f ih Let_def flip: c_def)
    have la: "length arr = c" using lA lB ic by (simp add: arr_def)
    have cmb: "insert_horrible_combine T F currentIndex currentIndex (butlast (arr # arrays)) =
          Some (currentIndex + (c + m), currentIndex + (c + m),
                overwrite F currentIndex (map Some (take (c + m) xs)))"
      if F: "currentIndex + (c + m) \<le> length F" for T and F :: "'a storage"
    proof -
      have q: "currentIndex + length A + length B \<le> length F" using F lA lB ic by simp
      have s: "insert_horrible_combine T F currentIndex (length B) (arr # butlast arrays) =
         insert_horrible_combine T (overwrite F currentIndex (map Some (A @ B)))
           (currentIndex + length A + length B) (length B + length arr) (butlast arrays)"
        using insert_horrible_combine_step[OF arr_def q] .
      have e: "currentIndex + length A + currentIndex = currentIndex + c"
        "currentIndex + length arr = currentIndex + c"
        using lA la ic by auto
      have bl: "butlast (arr # arrays) = arr # butlast arrays" using ne by simp
      have lo: "length (overwrite F currentIndex (map Some (A @ B))) = length F"
        using q by simp
      have "insert_horrible_combine T F currentIndex currentIndex (butlast (arr # arrays)) =
         insert_horrible_combine T (overwrite F currentIndex (map Some (take c xs)))
           (currentIndex + c) (currentIndex + c) (butlast arrays)"
        using s unfolding bl lB AB e .
      also have "\<dots> = Some (currentIndex + c + m, currentIndex + c + m,
          overwrite (overwrite F currentIndex (map Some (take c xs))) (currentIndex + c)
            (map Some (take m rest)))"
        using F lo by (intro comb) (simp add: AB)
      also have "overwrite (overwrite F currentIndex (map Some (take c xs))) (currentIndex + c)
            (map Some (take m rest)) =
          overwrite F currentIndex (map Some (take c xs) @ map Some (take m rest))"
        using overwrite_append[of currentIndex "map Some (take c xs)" "map Some (take m rest)" F]
          F full ml lr by simp
      also have "map Some (take c xs) @ map Some (take m rest) = map Some (take (c + m) xs)"
        unfolding rest_def take_add by simp
      finally show ?thesis by (simp add: add.assoc)
    qed
    have lok': "last_array_ok C (currentIndex + (c + m)) (drop (c + m) xs) (last (arr # arrays)) L"
      using lok ne by (simp add: rest_def ac_simps)
    show ?thesis
      unfolding r
      apply (rule exI[of _ "arr # arrays"], rule exI[of _ C], rule exI[of _ L], rule exI[of _ "c + m"])
      using ne ml lr full lenl lok' cmb by simp
  qed
qed

lemma insert_horrible_final_capacity_ge:
  "s \<le> insert_horrible_final_capacity c s"
proof (induction c s rule: insert_horrible_final_capacity.induct)
  case (1 c s)
  show ?case
  proof (cases "s > c")
    case True
    then show ?thesis
      using 1[OF True] by (subst insert_horrible_final_capacity.simps) simp
  next
    case False
    then show ?thesis by (subst insert_horrible_final_capacity.simps) simp
  qed
qed

lemma destroy_range_twice:
  assumes "a = map Some B @ G @ map Some A" and "i = length B + length G"
    and "L = length B"
  shows "\<exists>a1 a2. destroy_range T a i (length a) = Some a1 \<and> destroy_range T a1 0 L = Some a2"
proof -
  have la: "length a = i + length A" using assms by simp
  obtain a1 where 1: "destroy_range T a i (length a) = Some a1"
    and l1: "length a1 = length a" and t1: "take i a1 = take i a"
    using destroy_range_lists[of a "map Some B @ G" A "[]" i "length a" T] assms by auto
  have "a1 ! j \<noteq> None" if "j < L" for j
  proof -
    have ji: "j < i" using that assms by simp
    have "a1 ! j = take i a1 ! j" using ji by simp
    also have "\<dots> = a ! j" unfolding t1 using ji by simp
    also have "\<dots> = Some (B ! j)" using that assms by (simp add: nth_append)
    finally show ?thesis by simp
  qed
  moreover have "L \<le> length a1" using l1 la assms by simp
  ultimately obtain a2 where "destroy_range T a1 0 L = Some a2"
    using destroy_range_ok[of 0 L a1 T] by auto
  then show ?thesis using 1 by blast
qed

lemma overwrite_allocate:
  "p + length ys \<le> c \<Longrightarrow>
   overwrite (allocate c) p ys = replicate p None @ ys @ replicate (c - p - length ys) None"
  by (simp add: overwrite_def allocate_def)

lemma insert_horrible_not_bad:
  assumes "insert_horrible_arrays oldSize oldCapacity index xs = Some (arrays, S, C, L)"
    and "\<not> S > C"
    and "insert_horrible_combine T (last arrays) index index (butlast arrays) = Some (p, q, F)"
  shows "insert_horrible T index oldSize oldCapacity xs = Some \<lparr>newData = F, newSize = L\<rparr>"
  using assms by (simp add: insert_horrible_def Let_def)

lemma insert_horrible_bad_straight:
  assumes "insert_horrible_arrays oldSize oldCapacity index xs = Some (arrays, S, C, L)"
    and "S > C"
    and "insert_horrible_combine T (allocate (insert_horrible_final_capacity C S)) index index
           (butlast arrays) = Some (p, q, F)"
    and "\<not> L \<le> q"
    and "move_construct_from_range F p (last arrays) q L = Some (p1, F')"
    and "destroy_range T (last arrays) q L = Some a'"
  shows "insert_horrible T index oldSize oldCapacity xs = Some \<lparr>newData = F', newSize = p1\<rparr>"
  using assms by (simp add: insert_horrible_def Let_def)

lemma insert_horrible_bad_wrapped:
  assumes "insert_horrible_arrays oldSize oldCapacity index xs = Some (arrays, S, C, L)"
    and "S > C"
    and "insert_horrible_combine T (allocate (insert_horrible_final_capacity C S)) index index
           (butlast arrays) = Some (p, q, F)"
    and "L \<le> q"
    and "move_construct_from_range F p (last arrays) q (length (last arrays)) = Some (p1, F')"
    and "move_construct_from_range F' p1 (last arrays) 0 L = Some (p2, F'')"
    and "destroy_range T (last arrays) q (length (last arrays)) = Some a1"
    and "destroy_range T a1 0 L = Some a2"
  shows "insert_horrible T index oldSize oldCapacity xs = Some \<lparr>newData = F'', newSize = p2\<rparr>"
  using assms by (simp add: insert_horrible_def Let_def)

lemma insert_horrible_ok:
  assumes "index \<le> oldSize" and "xs \<noteq> []"
  shows "\<exists>cap. oldSize + length xs \<le> cap \<and>
     insert_horrible T index oldSize oldCapacity xs =
       Some \<lparr>newData = replicate index None @ map Some xs @
                         replicate (cap - index - length xs) None,
             newSize = index + length xs\<rparr>"
proof -
  obtain arrays C L m where
    ar: "insert_horrible_arrays oldSize oldCapacity index xs =
           Some (arrays, oldSize + length xs, C, L)"
    and ne: "arrays \<noteq> []" and ml: "m < length xs" and lenl: "length (last arrays) = C"
    and lok: "last_array_ok C (index + m) (drop m xs) (last arrays) L"
    and comb: "\<And>F. index + m \<le> length F \<Longrightarrow>
        insert_horrible_combine T F index index (butlast arrays) =
          Some (index + m, index + m, overwrite F index (map Some (take m xs)))"
    using insert_horrible_arrays_ok[OF assms, of oldCapacity] by blast
  define i where "i = index + m"
  define ys where "ys = drop m xs"
  define la where "la = last arrays"
  define S where "S = oldSize + length xs"
  have ly: "length ys = length xs - m" by (simp add: ys_def)
  have xs: "take m xs @ ys = xs" by (simp add: ys_def)
  have mxs: "map Some (take m xs) @ map Some ys = map Some xs"
    unfolding map_append[symmetric] xs ..
  have ltm: "length (map Some (take m xs)) = m" using ml by simp
  have iC: "i \<le> C" and yC: "length ys \<le> C" and yn: "ys \<noteq> []"
    using lok by (auto simp: last_array_ok_def i_def ys_def)
  have lla: "length la = C" using lenl by (simp add: la_def)
  show ?thesis
  proof (cases "S > C")
    case False
    have fit: "length ys \<le> C - i" using False assms(1) ml ly by (simp add: S_def i_def)
    have la: "la = replicate i None @ map Some ys @ replicate (C - i - length ys) None"
      and L: "L = i + length ys"
      using lok fit by (auto simp: last_array_ok_def i_def ys_def la_def)
    have c: "insert_horrible_combine T la index index (butlast arrays) =
          Some (i, i, overwrite la index (map Some (take m xs)))"
      using comb[of la] iC lla by (simp add: i_def)
    have la2: "la = replicate index None @ replicate m None @ map Some ys @
                 replicate (C - i - length ys) None"
      unfolding la i_def by (simp add: replicate_add)
    have "overwrite la index (map Some (take m xs)) =
        replicate index None @ (map Some (take m xs) @ map Some ys) @
          replicate (C - i - length ys) None"
      unfolding la2 overwrite_def using ltm by simp
    then have ov: "overwrite la index (map Some (take m xs)) =
        replicate index None @ map Some xs @ replicate (C - index - length xs) None"
      unfolding mxs using ml ly by (simp add: i_def)
    have r: "insert_horrible T index oldSize oldCapacity xs =
        Some \<lparr>newData = overwrite la index (map Some (take m xs)), newSize = L\<rparr>"
      using insert_horrible_not_bad[OF ar[folded S_def] False c[unfolded la_def]]
      unfolding la_def .
    have "L = index + length xs" using L ly ml by (simp add: i_def)
    then show ?thesis
      using r ov False by (intro exI[of _ C]) (simp add: S_def)
  next
    case True
    define C' where "C' = insert_horrible_final_capacity C S"
    have SC: "S \<le> C'" unfolding C'_def by (rule insert_horrible_final_capacity_ge)
    have ixs: "index + length xs \<le> C'" using SC assms(1) by (simp add: S_def)
    define F1 where "F1 = overwrite (allocate C') index (map Some (take m xs))"
    have lF1: "length F1 = C'" using ixs ml by (simp add: F1_def allocate_def)
    have c: "insert_horrible_combine T (allocate C') index index (butlast arrays) =
          Some (i, i, F1)"
      using comb[of "allocate C'"] ixs ml by (simp add: i_def F1_def allocate_def)
    have iy: "i + length ys \<le> C'" using ixs ly ml by (simp add: i_def)
    have fin: "overwrite F1 i (map Some ys) =
        replicate index None @ map Some xs @ replicate (C' - index - length xs) None"
    proof -
      have "overwrite F1 i (map Some ys) =
          overwrite (allocate C') index (map Some (take m xs) @ map Some ys)"
        unfolding F1_def
        using overwrite_append[of index "map Some (take m xs)" "map Some ys" "allocate C'"]
          ltm iy by (simp add: i_def allocate_def)
      also have "\<dots> = replicate index None @ map Some xs @
          replicate (C' - index - length xs) None"
        unfolding mxs using ixs by (simp add: overwrite_allocate)
      finally show ?thesis .
    qed
    have sz: "i + length ys = index + length xs" using ly ml by (simp add: i_def)
    show ?thesis
    proof (cases "length ys \<le> C - i")
      case fit: True
      have la: "la = replicate i None @ map Some ys @ replicate (C - i - length ys) None"
        and L: "L = i + length ys"
        using lok fit by (auto simp: last_array_ok_def i_def ys_def la_def)
      have nL: "\<not> L \<le> i" using L yn by simp
      have 1: "move_construct_from_range F1 i la i L =
          Some (i + length ys, overwrite F1 i (map Some ys))"
        using la L iy lF1
        by (intro move_construct_from_range_lists[where P = "replicate i None"
              and R = "replicate (C - i - length ys) None"]) auto
      obtain a' where d: "destroy_range T la i L = Some a'"
        using destroy_range_lists[of la "replicate i None" ys
            "replicate (C - i - length ys) None" i L T] la L by auto
      have r: "insert_horrible T index oldSize oldCapacity xs =
          Some \<lparr>newData = overwrite F1 i (map Some ys), newSize = i + length ys\<rparr>"
        using insert_horrible_bad_straight[OF ar[folded S_def] True c[unfolded C'_def] nL
            1[unfolded la_def] d[unfolded la_def]] .
      show ?thesis
        using r SC unfolding fin sz by (intro exI[of _ C']) (simp add: S_def)
    next
      case wr: False
      define A where "A = take (C - i) ys"
      define B where "B = drop (C - i) ys"
      define G where "G = (replicate (C - length ys) None :: 'a storage)"
      have la: "la = map Some B @ G @ map Some A" and L: "L = length ys - (C - i)"
        using lok wr by (auto simp: last_array_ok_def i_def ys_def la_def A_def B_def G_def)
      have lA: "length A = C - i" using wr by (simp add: A_def)
      have lB: "length B = L" using L by (simp add: B_def)
      have lG: "length G = C - length ys" by (simp add: G_def)
      have iBG: "i = length B + length G" using lB lG L wr iC yC by simp
      have AB: "A @ B = ys" by (simp add: A_def B_def)
      have Li: "L \<le> i" using L yC iC by simp
      have lAB: "length A + length B = length ys" using AB by (metis length_append)
      have 1: "move_construct_from_range F1 i la i C =
          Some (i + length A, overwrite F1 i (map Some A))"
        using la iBG lA iC iy lF1 lAB
        by (intro move_construct_from_range_lists[where P = "map Some B @ G" and R = "[]"]) auto
      have 2: "move_construct_from_range (overwrite F1 i (map Some A)) (i + length A) la 0 L =
          Some (i + length A + length B,
                overwrite (overwrite F1 i (map Some A)) (i + length A) (map Some B))"
        using la lB iy lF1 lAB
        by (intro move_construct_from_range_lists[where P = "[]" and R = "G @ map Some A"]) auto
      have 3: "overwrite (overwrite F1 i (map Some A)) (i + length A) (map Some B) =
          overwrite F1 i (map Some ys)"
      proof -
        have "i + length (map Some A) + length (map Some B) \<le> length F1"
          using iy lF1 lAB by simp
        from overwrite_append[OF this] show ?thesis
          unfolding map_append[symmetric] AB length_map .
      qed
      obtain a1 a2 where d1: "destroy_range T la i C = Some a1"
        and d2: "destroy_range T a1 0 L = Some a2"
        using destroy_range_twice[OF la iBG lB[symmetric], of T] lla by auto
      have e: "i + length A + length B = i + length ys" using lAB by simp
      have r: "insert_horrible T index oldSize oldCapacity xs =
          Some \<lparr>newData = overwrite F1 i (map Some ys), newSize = i + length ys\<rparr>"
        using insert_horrible_bad_wrapped[OF ar[folded S_def] True c[unfolded C'_def] Li
            1[folded lla, unfolded la_def] 2[unfolded la_def]
            d1[folded lla, unfolded la_def] d2]
        unfolding 3 e .
      show ?thesis
        using r SC unfolding fin sz by (intro exI[of _ C']) (simp add: S_def)
    qed
  qed
qed

subsection \<open>Closed forms of the copying loops\<close>

lemma copy_construct_from_range_eq:
  "p + length xs \<le> length a \<Longrightarrow>
   copy_construct_from_range a p xs = Some (p + length xs, overwrite a p (map Some xs))"
proof (induction xs arbitrary: a p)
  case Nil
  then show ?case by simp
next
  case (Cons x xs)
  have fl: "p < length a" using Cons.prems by simp
  have c: "construct a p x = Some (a[p := Some x])" using fl by (simp add: construct_def)
  have ih: "copy_construct_from_range (a[p := Some x]) (Suc p) xs =
      Some (Suc p + length xs, overwrite (a[p := Some x]) (Suc p) (map Some xs))"
    using Cons.IH[of "Suc p" "a[p := Some x]"] Cons.prems by simp
  show ?case using c ih by (simp add: overwrite_Cons[OF fl])
qed

lemma copy_construct_range_n_eq:
  "n \<le> length xs \<Longrightarrow> dest + n \<le> length a \<Longrightarrow>
   copy_construct_range_n a dest xs n =
     Some (dest + n, drop n xs, overwrite a dest (map Some (take n xs)))"
proof (induction xs arbitrary: a dest n)
  case Nil
  then show ?case by simp
next
  case (Cons x xs)
  show ?case
  proof (cases n)
    case 0
    then show ?thesis by simp
  next
    case (Suc k)
    have fl: "dest < length a" using Cons.prems Suc by simp
    have c: "construct a dest x = Some (a[dest := Some x])" using fl by (simp add: construct_def)
    have ih: "copy_construct_range_n (a[dest := Some x]) (Suc dest) xs k =
        Some (Suc dest + k, drop k xs,
              overwrite (a[dest := Some x]) (Suc dest) (map Some (take k xs)))"
      using Cons.IH[of k "Suc dest" "a[dest := Some x]"] Cons.prems Suc by simp
    show ?thesis using c ih Suc by (simp add: overwrite_Cons[OF fl])
  qed
qed

lemma copy_construct_range_eq:
  "f \<le> l \<Longrightarrow> l \<le> length a \<Longrightarrow> l - f \<le> length xs \<Longrightarrow>
   copy_construct_range a f l xs =
     Some (drop (l - f) xs, overwrite a f (map Some (take (l - f) xs)))"
proof (induction xs arbitrary: a f)
  case Nil
  then show ?case by simp
next
  case (Cons x xs)
  show ?case
  proof (cases "f = l")
    case True
    then show ?thesis by simp
  next
    case False
    then have lt: "f < l" using Cons.prems by simp
    have fl: "f < length a" using lt Cons.prems by simp
    have c: "construct a f x = Some (a[f := Some x])" using fl by (simp add: construct_def)
    have k: "l - f = Suc (l - Suc f)" using lt by simp
    have ih: "copy_construct_range (a[f := Some x]) (Suc f) l xs =
        Some (drop (l - Suc f) xs,
              overwrite (a[f := Some x]) (Suc f) (map Some (take (l - Suc f) xs)))"
      using Cons.IH[of "Suc f" "a[f := Some x]"] Cons.prems lt by simp
    show ?thesis unfolding k using c ih False by (simp add: overwrite_Cons[OF fl])
  qed
qed

lemma copy_assign_range_loop_eq:
  "f \<le> l \<Longrightarrow> l \<le> length a \<Longrightarrow> l - f \<le> length xs \<Longrightarrow>
   \<forall>i. f \<le> i \<and> i < l \<longrightarrow> a ! i \<noteq> None \<Longrightarrow>
   copy_assign_range_loop a f l xs =
     Some (drop (l - f) xs, overwrite a f (map Some (take (l - f) xs)))"
proof (induction xs arbitrary: a f)
  case Nil
  then show ?case by simp
next
  case (Cons x xs)
  show ?case
  proof (cases "f = l")
    case True
    then show ?thesis by simp
  next
    case False
    then have lt: "f < l" using Cons.prems by simp
    have fl: "f < length a" using lt Cons.prems by simp
    have "a ! f \<noteq> None" using Cons.prems(4) lt by simp
    then have c: "assign a f x = Some (a[f := Some x])" using fl by (simp add: assign_def)
    have k: "l - f = Suc (l - Suc f)" using lt by simp
    have ih: "copy_assign_range_loop (a[f := Some x]) (Suc f) l xs =
        Some (drop (l - Suc f) xs,
              overwrite (a[f := Some x]) (Suc f) (map Some (take (l - Suc f) xs)))"
      using Cons.IH[of "Suc f" "a[f := Some x]"] Cons.prems lt by (simp add: nth_list_update)
    show ?thesis unfolding k using c ih False by (simp add: overwrite_Cons[OF fl])
  qed
qed

lemma copy_assign_range_eq:
  "f \<le> l \<Longrightarrow> l \<le> length a \<Longrightarrow> l - f \<le> length xs \<Longrightarrow>
   \<forall>i. f \<le> i \<and> i < l \<longrightarrow> a ! i \<noteq> None \<Longrightarrow>
   copy_assign_range T a f l xs =
     Some (drop (l - f) xs, overwrite a f (map Some (take (l - f) xs)))"
  by (simp add: copy_assign_range_def copy_assign_range_loop_eq copy_construct_range_eq)

lemma move_construct_range_n_eq:
  "s + n \<le> length src \<Longrightarrow> \<forall>i. s \<le> i \<and> i < s + n \<longrightarrow> src ! i \<noteq> None \<Longrightarrow>
   dest + n \<le> length dst \<Longrightarrow>
   move_construct_range_n dst dest src s n =
     Some (dest + n, s + n, overwrite dst dest (take n (drop s src)))"
proof (induction dst dest src s n rule: move_construct_range_n.induct)
  case (1 dst dest src s n)
  show ?case
  proof (cases "n = 0")
    case True
    then show ?thesis by (simp add: move_construct_range_n.simps)
  next
    case False
    then obtain k where k: "n = Suc k" by (cases n) auto
    obtain x where x: "src ! s = Some x" using 1(3) False by auto
    have sl: "s < length src" using 1(2) False by simp
    have d: "deref src s = Some x" using sl x by (simp add: deref_def)
    have fl: "dest < length dst" using 1(4) False by simp
    have c: "construct dst dest x = Some (dst[dest := Some x])" using fl by (simp add: construct_def)
    have ih: "move_construct_range_n (dst[dest := Some x]) (Suc dest) src (Suc s) k =
        Some (Suc dest + k, Suc s + k,
              overwrite (dst[dest := Some x]) (Suc dest) (take k (drop (Suc s) src)))"
      using 1(1)[OF False d c] 1(2-) k by simp
    have tk: "take n (drop s src) = Some x # take k (drop (Suc s) src)"
      unfolding k using sl x by (simp add: take_Suc_conv_app_nth flip: Cons_nth_drop_Suc)
    show ?thesis
      unfolding tk
      by (subst move_construct_range_n.simps) (simp add: d c ih k overwrite_Cons[OF fl])
  qed
qed

lemma move_construct_range_n_same_eq:
  "s + n \<le> dest \<Longrightarrow> \<forall>i. s \<le> i \<and> i < s + n \<longrightarrow> a ! i \<noteq> None \<Longrightarrow>
   dest + n \<le> length a \<Longrightarrow>
   move_construct_range_n_same a dest s n =
     Some (dest + n, s + n, overwrite a dest (take n (drop s a)))"
proof (induction a dest s n rule: move_construct_range_n_same.induct)
  case (1 a dest s n)
  show ?case
  proof (cases "n = 0")
    case True
    then show ?thesis by (simp add: move_construct_range_n_same.simps)
  next
    case False
    then obtain k where k: "n = Suc k" by (cases n) auto
    obtain x where x: "a ! s = Some x" using 1(3) False by auto
    have sl: "s < length a" using 1(2,4) False by simp
    have d: "deref a s = Some x" using sl x by (simp add: deref_def)
    have fl: "dest < length a" using 1(4) False by simp
    have c: "construct a dest x = Some (a[dest := Some x])" using fl by (simp add: construct_def)
    have ih: "move_construct_range_n_same (a[dest := Some x]) (Suc dest) (Suc s) k =
        Some (Suc dest + k, Suc s + k,
              overwrite (a[dest := Some x]) (Suc dest) (take k (drop (Suc s) (a[dest := Some x]))))"
      using 1(1)[OF False d c] 1(2-) k by (simp add: nth_list_update)
    have dr: "take k (drop (Suc s) (a[dest := Some x])) = take k (drop (Suc s) a)"
      using 1(2) k by (intro take_drop_update_above) simp
    have tk: "take n (drop s a) = Some x # take k (drop (Suc s) a)"
      unfolding k using sl x by (simp flip: Cons_nth_drop_Suc)
    show ?thesis
      unfolding tk
      by (subst move_construct_range_n_same.simps) (simp add: d c ih dr k overwrite_Cons[OF fl])
  qed
qed

subsection \<open>Multi-pass range insert within capacity\<close>

lemma not_many:
  "m_size v + k \<le> length (m_data v) \<Longrightarrow> \<not> many v k"
proof -
  assume a: "m_size v + k \<le> length (m_data v)"
  have "(m_size v + k) mod 2 ^ 64 \<le> m_size v + k" by (rule mod_less_eq_dividend)
  then show ?thesis using a by (simp add: many_def size_add_def size_v_def capacity_def)
qed

lemma insert_range_forward_room:
  assumes "wf_vector v" and "position \<le> m_size v" and "xs \<noteq> []"
    and "m_size v + length xs \<le> length (m_data v)"
  shows "\<exists>u v'. insert_range_forward T v position xs = Some (u, v') \<and> wf_vector v' \<and>
           contents v' = take position (contents v) @ xs @ drop position (contents v) \<and>
           m_size v' = m_size v + length xs \<and> capacity v' = capacity v"
proof -
  define n where "n = m_size v"
  define a where "a = m_data v"
  define k where "k = length xs"
  define p where "p = position"
  obtain A Z where A: "A = take p a" and Z: "Z = take (n - p) (drop p a)"
    and lA: "length A = p" and lZ: "length Z = n - p"
    and iA: "list_all (\<lambda>s. s \<noteq> None) A" and iZ: "list_all (\<lambda>s. s \<noteq> None) Z"
    and cA: "take p (contents v) = map the A" and cZ: "drop p (contents v) = map the Z"
    and parts: "a = A @ Z @ drop n a"
    using wf_parts[OF assms(1,2)] unfolding n_def a_def p_def by blast
  have pn: "p \<le> n" using assms(2) by (simp add: p_def n_def)
  have nk: "n + k \<le> length a" using assms(4) by (simp add: n_def k_def a_def)
  have k0: "0 < k" using assms(3) by (simp add: k_def)
  define u where "u = (if value_has_trivial_destroy T \<or> p + k < n then p + k else n)"
  define d1 where "d1 = overwrite a (p + k) Z"
  have mf: "move_forward_n T v position (length xs) = Some (u, \<lparr>m_data = d1, m_size = n + k\<rparr>)"
    using move_forward_n_ok[OF assms(1,2,4), of T] k0
    unfolding u_def d1_def Z n_def a_def k_def p_def by simp
  have ld1: "length d1 = length a" using nk pn lZ by (simp add: d1_def)
  have init: "d1 ! i \<noteq> None" if "i < n" "i < p + k" for i
  proof -
    have "d1 ! i = a ! i"
      unfolding d1_def using nth_overwrite[of "p + k" Z a i] that nk pn lZ by simp
    moreover have "a ! i \<noteq> None"
      using assms(1) that(1) by (simp add: wf_vector_iff n_def a_def)
    ultimately show ?thesis by simp
  qed
  define d where "d = overwrite d1 p (map Some xs)"
  define j where "j = u - p"
  define d2 where "d2 = overwrite d1 p (map Some (take j xs))"
  have fillT: "copy_construct_range_n d1 p xs k = Some (p + k, [], d)"
  proof -
    have "copy_construct_range_n d1 p xs k =
        Some (p + k, drop k xs, overwrite d1 p (map Some (take k xs)))"
      using nk pn ld1 by (intro copy_construct_range_n_eq) (auto simp: k_def)
    then show ?thesis by (simp add: d_def k_def)
  qed
  have fillN: "copy_assign_range T d1 p u xs = Some (drop j xs, d2)"
    "copy_construct_range d2 u (p + k) (drop j xs) = Some ([], d)"
    if nt: "\<not> value_has_trivial_destroy T"
  proof -
    have pu: "p \<le> u" and upk: "u \<le> p + k" and un: "u \<le> n"
      using nt pn by (auto simp: u_def)
    have jk: "j \<le> k" using upk by (simp add: j_def)
    show "copy_assign_range T d1 p u xs = Some (drop j xs, d2)"
      unfolding j_def d2_def using pu upk un nk ld1 init
      by (intro copy_assign_range_eq) (auto simp: k_def)
    have ld2: "length d2 = length a" using jk nk pn ld1 by (simp add: d2_def k_def)
    have e: "p + k - u = k - j" using pu by (simp add: j_def)
    have 2: "copy_construct_range d2 u (p + k) (drop j xs) =
        Some (drop (k - j) (drop j xs),
              overwrite d2 u (map Some (take (k - j) (drop j xs))))"
      using upk nk pn ld2 jk
      by (intro copy_construct_range_eq[of u "p + k" d2 "drop j xs", unfolded e]) (auto simp: k_def)
    have tk: "take (k - j) (drop j xs) = drop j xs" "drop (k - j) (drop j xs) = []"
      by (simp_all add: k_def)
    have uj: "u = p + length (map Some (take j xs))" using jk pu by (simp add: j_def k_def)
    have "overwrite d2 u (map Some (drop j xs)) =
        overwrite d1 p (map Some (take j xs) @ map Some (drop j xs))"
      unfolding d2_def
      using overwrite_append[of p "map Some (take j xs)" "map Some (drop j xs)" d1]
        nk pn ld1 jk uj by (simp add: k_def)
    also have "\<dots> = d" unfolding d_def map_append[symmetric] append_take_drop_id ..
    finally have 3: "overwrite d2 u (map Some (drop j xs)) = d" .
    show "copy_construct_range d2 u (p + k) (drop j xs) = Some ([], d)"
      using 2 unfolding tk 3 .
  qed
  have r: "insert_range_forward T v position xs = Some (u, \<lparr>m_data = d, m_size = n + k\<rparr>)"
  proof (cases "value_has_trivial_destroy T")
    case True
    then show ?thesis
      using not_many[OF assms(4)] mf fillT
      unfolding insert_range_forward_def k_def p_def by (simp add: Let_def)
  next
    case False
    then show ?thesis
      using not_many[OF assms(4)] mf fillN[OF False]
      unfolding insert_range_forward_def k_def p_def by (simp add: Let_def)
  qed
  have "d = overwrite a p (map Some xs @ Z)"
    unfolding d_def d1_def
    using overwrite_overwrite[of p "map Some xs" Z a] nk pn lZ by (simp add: k_def)
  also have "\<dots> = A @ map Some xs @ Z @ drop k (drop n a)"
    using overwrite_parts[OF parts, of "map Some xs"] nk lA by (simp add: k_def)
  finally have dd: "d = A @ map Some xs @ Z @ drop k (drop n a)" .
  have sz: "n + k = length A + length xs + length Z" using lA lZ pn by (simp add: k_def)
  note pv = parts_vector[OF iA iZ sz, of "drop k (drop n a)"]
  have cap: "capacity \<lparr>m_data = d, m_size = n + k\<rparr> = capacity v"
    unfolding dd pv(3) using nk by (simp add: capacity_def a_def)
  show ?thesis
    apply (rule exI[of _ u], rule exI[of _ "\<lparr>m_data = d, m_size = n + k\<rparr>"])
    using r pv(1,2) cap unfolding dd cA[unfolded p_def] cZ[unfolded p_def]
    by (simp add: n_def k_def)
qed

subsection \<open>Appending a single-pass range\<close>

lemma wf_vector_all:
  assumes "wf_vector v" and "m_size v = length (m_data v)"
  shows "list_all (\<lambda>s. s \<noteq> None) (m_data v)" and "contents v = map the (m_data v)"
  using assms by (simp_all add: wf_vector_def contents_def)

lemma append_horrible_tail:
  assumes "wf_vector v1" and "m_size v1 = length (m_data v1)" and "first \<noteq> []"
    and "c = capacity v1"
  shows "\<exists>h d a'. insert_horrible T c c c first = Some h \<and>
           move_construct_range_n (newData h) 0 (m_data v1) 0 c = Some (c, c, d) \<and>
           destroy_range T (m_data v1) 0 (iend v1) = Some a' \<and>
           wf_vector (reset3 d (newSize h)) \<and>
           contents (reset3 d (newSize h)) = contents v1 @ first \<and>
           newSize h = m_size v1 + length first"
proof -
  define D where "D = m_data v1"
  have lD: "length D = c" using assms(4) by (simp add: capacity_def D_def)
  have sz: "m_size v1 = c" using assms(2) lD by (simp add: D_def)
  have iD: "list_all (\<lambda>s. s \<noteq> None) D" and cD: "contents v1 = map the D"
    using wf_vector_all[OF assms(1,2)] by (simp_all add: D_def)
  obtain cap where cap: "c + length first \<le> cap"
    and h: "insert_horrible T c c c first =
       Some \<lparr>newData = replicate c None @ map Some first @
                         replicate (cap - c - length first) None,
             newSize = c + length first\<rparr>"
    using insert_horrible_ok[of c c first T c] assms(3) by blast
  define R where "R = (replicate (cap - c - length first) None :: 'a storage)"
  define N where "N = replicate c None @ map Some first @ R"
  have lN: "length N = cap" using cap by (simp add: N_def R_def)
  have nn: "\<forall>i. 0 \<le> i \<and> i < 0 + c \<longrightarrow> D ! i \<noteq> None"
    using iD lD by (simp add: list_all_length)
  have mv: "move_construct_range_n N 0 D 0 c = Some (0 + c, 0 + c, overwrite N 0 (take c (drop 0 D)))"
    using lD lN cap nn by (intro move_construct_range_n_eq) auto
  have ov: "overwrite N 0 (take c (drop 0 D)) = D @ map Some first @ R"
    using lD by (simp add: overwrite_def N_def)
  obtain a' where d: "destroy_range T D 0 (iend v1) = Some a'"
    using destroy_all_ok[OF assms(1), of T] by (auto simp: D_def iend_def)
  have s: "c + length first = length D + length first + length ([] :: 'a storage)"
    using lD by simp
  note pv = parts_vector[OF iD _ s, of R, simplified]
  show ?thesis
    apply (rule exI[of _ "\<lparr>newData = N, newSize = c + length first\<rparr>"])
    apply (rule exI[of _ "D @ map Some first @ R"], rule exI[of _ a'])
    using h mv d pv unfolding ov cD by (simp add: N_def R_def D_def reset3_def sz)
qed

lemma append_range_input_null:
  "m_data v0 = [] \<Longrightarrow>
   append_range_input T v0 xs = append_range_input T (reset3 (allocate 16) 0) xs"
  by (simp add: append_range_input_def reset3_def allocate_def)

lemma append_range_input_alloc:
  assumes "wf_vector v" and "m_data v \<noteq> []"
  shows "\<exists>p v'. append_range_input T v xs = Some (p, v') \<and> wf_vector v' \<and>
           contents v' = contents v @ xs \<and> m_size v' = m_size v + length xs"
proof -
  define n where "n = m_size v"
  define a where "a = m_data v"
  define c where "c = length a"
  have nc: "n \<le> c" using assms(1) by (simp add: wf_vector_def n_def c_def a_def)
  obtain A Z where A: "A = take n a" and lA: "length A = n"
    and iA: "list_all (\<lambda>s. s \<noteq> None) A" and cA: "take n (contents v) = map the A"
    and parts: "a = A @ Z @ drop n a" and lZ: "length Z = n - n"
    using wf_parts[OF assms(1), of n] unfolding n_def a_def by blast
  have Z: "Z = []" using lZ by simp
  have cv: "contents v = map the A" using cA by (simp add: contents_def n_def)
  define k where "k = min (c - n) (length xs)"
  define D where "D = overwrite a n (map Some (take k xs))"
  define v1 where "v1 = \<lparr>m_data = D, m_size = n + k\<rparr>"
  have lk: "length (take k xs) = k" by (simp add: k_def)
  have D: "D = A @ map Some (take k xs) @ [] @ drop k (drop n a)"
    using overwrite_parts[of a A "[]" "drop n a" "map Some (take k xs)"] parts lA lk nc
    unfolding D_def Z by (simp add: k_def c_def)
  have s1: "n + k = length A + length (take k xs) + length ([] :: 'a storage)"
    using lA lk by simp
  note pv = parts_vector[OF iA _ s1, of "drop k (drop n a)", simplified, folded D[simplified]]
  have wf1: "wf_vector v1" and c1: "contents v1 = contents v @ take k xs"
    using pv by (simp_all add: v1_def cv)
  have lD: "length D = c" using nc lk by (simp add: D_def k_def c_def)
  have step: "(v1, drop k xs) = (v, xs)" if "full v"
  proof -
    have "n = c" using that by (simp add: full_def n_def c_def a_def)
    then have "k = 0" by (simp add: k_def)
    then show ?thesis by (simp add: v1_def D_def n_def a_def)
  qed
  have fill: "checked_copy_construct_range a n c xs = Some (n + k, drop k xs, D)"
    unfolding k_def D_def using nc by (intro checked_copy_construct_range_eq) (auto simp: c_def)
  show ?thesis
  proof (cases "drop k xs = []")
    case True
    then have kx: "take k xs = xs" by simp
    then have kl: "k = length xs" using lk by simp
    have r: "append_range_input T v xs = Some (n, v1)"
    proof (cases "full v")
      case f: True
      show ?thesis
        using assms(2) f True step[OF f]
        by (simp add: append_range_input_def Let_def size_v_def n_def)
    next
      case f: False
      show ?thesis
        using assms(2) f True fill
        unfolding append_range_input_def a_def n_def c_def v1_def
        by (simp add: Let_def size_v_def iend_def capacity_def)
    qed
    show ?thesis
      using r wf1 c1 unfolding kx by (auto simp: v1_def kl n_def)
  next
    case False
    then have kc: "k = c - n" by (simp add: k_def)
    have full1: "m_size v1 = length (m_data v1)" using nc lD by (simp add: v1_def kc)
    have cap1: "c = capacity v1" using lD by (simp add: capacity_def v1_def)
    obtain h d a' where h: "insert_horrible T c c c (drop k xs) = Some h"
      and mv: "move_construct_range_n (newData h) 0 (m_data v1) 0 c = Some (c, c, d)"
      and ds: "destroy_range T (m_data v1) 0 (iend v1) = Some a'"
      and wf2: "wf_vector (reset3 d (newSize h))"
      and c2: "contents (reset3 d (newSize h)) = contents v1 @ drop k xs"
      and s2: "newSize h = m_size v1 + length (drop k xs)"
      using append_horrible_tail[OF wf1 full1 False cap1, of T] by blast
    have r: "append_range_input T v xs = Some (n, reset3 d (newSize h))"
    proof (cases "full v")
      case f: True
      have e: "v1 = v" "drop k xs = xs" using step[OF f] by simp_all
      show ?thesis
        using assms(2) f False h mv ds unfolding cap1 e
        by (simp add: append_range_input_def Let_def size_v_def n_def)
    next
      case f: False
      show ?thesis
        using assms(2) f False fill h mv ds lD
        unfolding append_range_input_def a_def n_def c_def v1_def
        by (simp add: Let_def size_v_def iend_def capacity_def)
    qed
    have "m_size (reset3 d (newSize h)) = m_size v + length xs"
      using s2 nc by (simp add: reset3_def v1_def n_def k_def)
    then show ?thesis
      using r wf2 c2 unfolding c1 by auto
  qed
qed

lemma append_range_input_ok:
  assumes "wf_vector v"
  shows "\<exists>p v'. append_range_input T v xs = Some (p, v') \<and> wf_vector v' \<and>
           contents v' = contents v @ xs \<and> m_size v' = m_size v + length xs"
proof (cases "m_data v = []")
  case True
  define w where "w = reset3 (allocate 16 :: 'a storage) 0"
  have w: "wf_vector w" "m_data w \<noteq> []" "contents w = []" "m_size w = 0"
    by (simp_all add: w_def reset3_def allocate_def wf_vector_def contents_def)
  have v: "contents v = []" "m_size v = 0"
    using assms True by (simp_all add: wf_vector_def contents_def)
  show ?thesis
    using append_range_input_alloc[OF w(1,2), of T xs]
    unfolding append_range_input_null[OF True, folded w_def] w(3,4) v by simp
next
  case False
  then show ?thesis using append_range_input_alloc[OF assms] by blast
qed

subsection \<open>Inserting a single-pass range before the end\<close>

lemma destroy_range_keeps:
  assumes "f \<le> l" and "l \<le> length a" and "\<forall>i. f \<le> i \<and> i < l \<longrightarrow> a ! i \<noteq> None"
  shows "\<exists>a'. destroy_range T a f l = Some a' \<and> length a' = length a \<and>
           (\<forall>i. i < length a \<and> (i < f \<or> l \<le> i) \<longrightarrow> a' ! i = a ! i)"
proof (cases "value_has_trivial_destroy T")
  case True
  then show ?thesis by (simp add: destroy_range_def)
next
  case False
  have len: "f + length (replicate (l - f) (None :: 'a option)) \<le> length a"
    using assms(1,2) by simp
  have "destroy_range T a f l = Some (overwrite a f (replicate (l - f) None))"
    using False destroy_loop_ok[OF assms] by (simp add: destroy_range_def)
  moreover have "overwrite a f (replicate (l - f) None) ! i = a ! i"
    if "i < length a" "i < f \<or> l \<le> i" for i
    using nth_overwrite[OF len that(1)] that(2) assms(1) by auto
  ultimately show ?thesis using len by auto
qed

lemma overwrite_segment:
  "length G = length ys \<Longrightarrow> length P = p \<Longrightarrow> overwrite (P @ G @ R) p ys = P @ ys @ R"
  by (auto simp: overwrite_def)

lemma vector_of_list:
  "wf_vector \<lparr>m_data = map Some ys @ R, m_size = length ys\<rparr>"
  "contents \<lparr>m_data = map Some ys @ R, m_size = length ys\<rparr> = ys"
  by (simp_all add: wf_vector_def contents_def comp_def list_all_iff)

lemma wf_value_parts:
  assumes "wf_vector v" and "p \<le> m_size v"
  obtains A Z R where "m_data v = map Some A @ map Some Z @ R"
    and "length A = p" and "length Z = m_size v - p"
    and "take p (contents v) = A" and "drop p (contents v) = Z"
    and "length R = length (m_data v) - m_size v"
proof -
  obtain A Z where lA: "length A = p" and lZ: "length Z = m_size v - p"
    and iA: "list_all (\<lambda>s. s \<noteq> None) A" and iZ: "list_all (\<lambda>s. s \<noteq> None) Z"
    and cA: "take p (contents v) = map the A" and cZ: "drop p (contents v) = map the Z"
    and parts: "m_data v = A @ Z @ drop (m_size v) (m_data v)"
    using wf_parts[OF assms] by blast
  have "m_data v = map Some (map the A) @ map Some (map the Z) @ drop (m_size v) (m_data v)"
    using parts map_Some_the[OF iA] map_Some_the[OF iZ] by simp
  then show ?thesis
    using that[of "map the A" "map the Z" "drop (m_size v) (m_data v)"] lA lZ cA cZ by simp
qed

lemma insert_range_input_horrible_steps:
  assumes "newIndex = position + tempSize + (fallbackEnd - iend v)"
    and "suffixSize = iend v - position"
    and "insert_horrible T newIndex (newIndex + suffixSize) (capacity v) first = Some h"
    and "move_construct_from_range (newData h) 0 (m_data v) 0 position = Some (r1, d1)"
    and "move_construct_from_range d1 r1 tempData 0 tempSize = Some (r2, d2)"
    and "move_construct_from_range d2 r2 (m_data v) (iend v) fallbackEnd = Some (r3, d3)"
    and "move_construct_from_range d3 (newSize h) (m_data v) position (iend v) = Some (nn, d4)"
    and "destroy_range T (m_data v) 0 position = Some o1"
    and "destroy_range T tempData 0 tempSize = Some ot"
    and "destroy_range T o1 (iend v) fallbackEnd = Some o2"
    and "destroy_range T o2 position (iend v) = Some o3"
  shows "insert_range_input_horrible T v position tempData tempSize fallbackEnd first =
           Some (position, reset3 d4 nn)"
  using assms by (simp add: insert_range_input_horrible_def Let_def)

lemma insert_range_input_horrible_ok:
  assumes a: "m_data v = map Some A @ map Some Z @ map Some fb @ R"
    and n: "m_size v = length A + length Z"
    and t: "tempData = map Some tmp @ TR"
    and ne: "first \<noteq> []"
  shows "\<exists>v'. insert_range_input_horrible T v (length A) tempData (length tmp)
                (m_size v + length fb) first = Some (length A, v') \<and>
           wf_vector v' \<and> contents v' = A @ tmp @ fb @ first @ Z \<and>
           m_size v' = m_size v + length tmp + length fb + length first"
proof -
  define p where "p = length A"
  define q where "q = p + length tmp + length fb"
  define s where "s = length Z"
  have ie: "iend v = p + s" using n by (simp add: iend_def p_def s_def)
  have q1: "q = p + length tmp + (m_size v + length fb - iend v)"
    by (simp add: q_def iend_def)
  have s1: "s = iend v - p" using ie by simp
  obtain cap where cap: "q + s + length first \<le> cap"
    and h: "insert_horrible T q (q + s) (capacity v) first =
       Some \<lparr>newData = replicate q None @ map Some first @ replicate (cap - q - length first) None,
             newSize = q + length first\<rparr>"
    using insert_horrible_ok[of q "q + s" first T "capacity v"] ne by auto
  define RR where "RR = (replicate (cap - q - length first - s) None :: 'a storage)"
  define G4 where "G4 = (replicate s None :: 'a storage)"
  define G3 where "G3 = (replicate (length fb) None :: 'a storage)"
  define G2 where "G2 = (replicate (length tmp) None :: 'a storage)"
  define G1 where "G1 = (replicate p None :: 'a storage)"
  define N where "N = replicate q None @ map Some first @ replicate (cap - q - length first) None"
  have r4: "replicate (cap - q - length first) None = G4 @ RR"
    using cap unfolding G4_def RR_def replicate_add[symmetric] by simp
  have r1: "replicate q None = G1 @ G2 @ G3"
    unfolding G1_def G2_def G3_def replicate_add[symmetric] q_def by (simp add: add.assoc)
  have N: "N = G1 @ G2 @ G3 @ map Some first @ G4 @ RR"
    unfolding N_def r4 r1 by simp
  have lG: "length G1 = p" "length G2 = length tmp" "length G3 = length fb" "length G4 = s"
    by (simp_all add: G1_def G2_def G3_def G4_def)
  define d1 where "d1 = map Some A @ G2 @ G3 @ map Some first @ G4 @ RR"
  define d2 where "d2 = map Some A @ map Some tmp @ G3 @ map Some first @ G4 @ RR"
  define d3 where "d3 = map Some A @ map Some tmp @ map Some fb @ map Some first @ G4 @ RR"
  define d4 where "d4 = map Some A @ map Some tmp @ map Some fb @ map Some first @ map Some Z @ RR"
  have o1: "overwrite N 0 (map Some A) = d1"
    unfolding N d1_def
    using overwrite_segment[of G1 "map Some A" "[]" 0 "G2 @ G3 @ map Some first @ G4 @ RR"] lG
    by (simp add: p_def)
  have o2: "overwrite d1 p (map Some tmp) = d2"
    unfolding d1_def d2_def
    using overwrite_segment[of G2 "map Some tmp" "map Some A" p "G3 @ map Some first @ G4 @ RR"] lG
    by (simp add: p_def)
  have o3: "overwrite d2 (p + length tmp) (map Some fb) = d3"
    unfolding d2_def d3_def
    using overwrite_segment[of G3 "map Some fb" "map Some A @ map Some tmp" "p + length tmp"
        "map Some first @ G4 @ RR"] lG
    by (simp add: p_def)
  have o4: "overwrite d3 (q + length first) (map Some Z) = d4"
    unfolding d3_def d4_def
    using overwrite_segment[of G4 "map Some Z"
        "map Some A @ map Some tmp @ map Some fb @ map Some first" "q + length first" RR] lG
    by (simp add: p_def q_def s_def)
  have ln: "length N = cap" "length d1 = cap" "length d2 = cap" "length d3 = cap"
    using cap lG by (simp_all add: N d1_def d2_def d3_def RR_def p_def q_def s_def)
  have m1: "move_construct_from_range N 0 (m_data v) 0 p = Some (p, d1)"
    using move_construct_from_range_lists[of "m_data v" "[]" A
        "map Some Z @ map Some fb @ R" 0 p 0 N] a cap ln
    by (simp add: p_def q_def o1[unfolded p_def])
  have m2: "move_construct_from_range d1 p tempData 0 (length tmp) = Some (p + length tmp, d2)"
    using move_construct_from_range_lists[of tempData "[]" tmp TR 0 "length tmp" p d1] t cap ln
    by (simp add: q_def o2)
  have m3: "move_construct_from_range d2 (p + length tmp) (m_data v) (iend v)
              (m_size v + length fb) = Some (q, d3)"
    using move_construct_from_range_lists[of "m_data v" "map Some A @ map Some Z" fb R
        "iend v" "m_size v + length fb" "p + length tmp" d2] a cap ln n
    by (simp add: q_def o3[unfolded p_def] iend_def p_def)
  have m4: "move_construct_from_range d3 (q + length first) (m_data v) p (iend v) =
              Some (q + length first + s, d4)"
    using move_construct_from_range_lists[of "m_data v" "map Some A" Z "map Some fb @ R"
        p "iend v" "q + length first" d3] a cap ln n
    by (simp add: o4 iend_def p_def s_def)
  have la: "length (m_data v) = p + s + length fb + length R"
    using a by (simp add: p_def s_def)
  have init: "m_data v ! i \<noteq> None" if "i < p + s + length fb" for i
  proof -
    have "m_data v = map Some (A @ Z @ fb) @ R" using a by simp
    then show ?thesis using that by (simp add: nth_append p_def s_def del: map_append)
  qed
  obtain x1 where x1: "destroy_range T (m_data v) 0 p = Some x1"
    and l1: "length x1 = length (m_data v)"
    and k1: "\<forall>i. i < length (m_data v) \<and> (i < 0 \<or> p \<le> i) \<longrightarrow> x1 ! i = m_data v ! i"
    using destroy_range_keeps[of 0 p "m_data v" T] la init by auto
  obtain xt where xt: "destroy_range T tempData 0 (length tmp) = Some xt"
    using destroy_range_lists[of tempData "[]" tmp TR 0 "length tmp" T] t by auto
  have i2: "\<forall>i. iend v \<le> i \<and> i < m_size v + length fb \<longrightarrow> x1 ! i \<noteq> None"
    using k1 init la ie by (auto simp: iend_def)
  obtain x2 where x2: "destroy_range T x1 (iend v) (m_size v + length fb) = Some x2"
    and l2: "length x2 = length x1"
    and k2: "\<forall>i. i < length x1 \<and> (i < iend v \<or> m_size v + length fb \<le> i) \<longrightarrow> x2 ! i = x1 ! i"
    using destroy_range_keeps[of "iend v" "m_size v + length fb" x1 T] i2 l1 la ie
    by (auto simp: iend_def)
  have i3: "\<forall>i. p \<le> i \<and> i < iend v \<longrightarrow> x2 ! i \<noteq> None"
    using k1 k2 init la l1 ie by (auto simp: iend_def)
  obtain x3 where x3: "destroy_range T x2 p (iend v) = Some x3"
    using destroy_range_keeps[of p "iend v" x2 T] i3 l1 l2 la ie by auto
  have r: "insert_range_input_horrible T v p tempData (length tmp) (m_size v + length fb) first =
      Some (p, reset3 d4 (q + length first + s))"
  proof -
    define hh where "hh = \<lparr>newData = N, newSize = q + length first\<rparr>"
    have hh: "insert_horrible T q (q + s) (capacity v) first = Some hh"
      using h by (simp add: hh_def N_def)
    have m1': "move_construct_from_range (newData hh) 0 (m_data v) 0 p = Some (p, d1)"
      using m1 by (simp add: hh_def)
    have m4': "move_construct_from_range d3 (newSize hh) (m_data v) p (iend v) =
              Some (q + length first + s, d4)"
      using m4 by (simp add: hh_def)
    show ?thesis
      using insert_range_input_horrible_steps[OF q1 s1 hh m1' m2 m3 m4' x1 xt x2 x3] .
  qed
  have d4: "d4 = map Some (A @ tmp @ fb @ first @ Z) @ RR" by (simp add: d4_def)
  have sz: "q + length first + s = length (A @ tmp @ fb @ first @ Z)"
    by (simp add: q_def p_def s_def)
  have sz2: "q + length first + s = m_size v + length tmp + length fb + length first"
    using n by (simp add: q_def p_def s_def)
  show ?thesis
    apply (rule exI[of _ "reset3 d4 (q + length first + s)"])
    using r vector_of_list[of "A @ tmp @ fb @ first @ Z" RR]
    unfolding reset3_def d4 sz[symmetric] sz2 p_def by simp
qed

lemma insert_range_input_early:
  assumes "xs \<noteq> []" and "\<not> full v"
    and "tempCapacity = (if iend v - position < remainder v then iend v - position
                         else remainder v)"
    and "checked_copy_construct_range (allocate tempCapacity) 0 tempCapacity xs =
           Some (tempSize, [], tempData1)"
    and "insert_range_forward T v position (map the (take tempSize tempData1)) = Some (u, v')"
    and "destroy_range T tempData1 0 tempSize = Some ot"
  shows "insert_range_input T v position xs = Some (position, v')"
proof (cases "iend v - position < remainder v")
  case True
  then show ?thesis using assms by (simp add: insert_range_input_def Let_def)
next
  case False
  then show ?thesis using assms by (simp add: insert_range_input_def Let_def)
qed

lemma insert_range_input_fallback_done:
  assumes "xs \<noteq> []" and "\<not> full v" and "iend v - position < remainder v"
    and "checked_copy_construct_range (allocate (iend v - position)) 0 (iend v - position) xs =
           Some (tempSize, first, tempData1)"
    and "first \<noteq> []"
    and "checked_copy_construct_range (m_data v) (iend v) (capacity v - (iend v - position)) first =
           Some (fallbackEnd, [], d)"
    and "move_construct_range_n_same d fallbackEnd position (iend v - position) = Some (e, x, d1)"
    and "move_construct_range_n d1 position tempData1 0 (iend v - position) = Some (y, z, d2)"
    and "destroy_range T tempData1 0 tempSize = Some ot"
  shows "insert_range_input T v position xs = Some (position, v\<lparr>m_data := d2, m_size := e\<rparr>)"
  using assms by (simp add: insert_range_input_def Let_def)

lemma insert_range_input_fallback_horrible:
  assumes "xs \<noteq> []" and "\<not> full v" and "iend v - position < remainder v"
    and "checked_copy_construct_range (allocate (iend v - position)) 0 (iend v - position) xs =
           Some (tempSize, first, tempData1)"
    and "first \<noteq> []"
    and "checked_copy_construct_range (m_data v) (iend v) (capacity v - (iend v - position)) first =
           Some (fallbackEnd, first', d)"
    and "first' \<noteq> []"
  shows "insert_range_input T v position xs =
           insert_range_input_horrible T (v\<lparr>m_data := d\<rparr>) position tempData1 tempSize
             fallbackEnd first'"
  using assms by (simp add: insert_range_input_def Let_def)

lemma insert_range_input_temp_horrible:
  assumes "xs \<noteq> []" and "\<not> full v" and "\<not> iend v - position < remainder v"
    and "checked_copy_construct_range (allocate (remainder v)) 0 (remainder v) xs =
           Some (tempSize, first, tempData1)"
    and "first \<noteq> []"
  shows "insert_range_input T v position xs =
           insert_range_input_horrible T v position tempData1 tempSize (iend v) first"
  using assms by (simp add: insert_range_input_def Let_def)

lemma insert_range_input_full:
  assumes "xs \<noteq> []" and "full v"
  shows "insert_range_input T v position xs =
           insert_range_input_horrible T v position [] 0 (iend v) xs"
  using assms by (simp add: insert_range_input_def Let_def)

lemma overwrite_into_tail:
  "length P = q \<Longrightarrow> length ys \<le> length R \<Longrightarrow>
   overwrite (P @ R) q ys = P @ ys @ drop (length ys) R"
  by (simp add: overwrite_def)

lemma temp_buffer_fill:
  "checked_copy_construct_range (allocate tc) 0 tc xs =
     Some (min tc (length xs), drop (min tc (length xs)) xs,
           map Some (take (min tc (length xs)) xs) @ replicate (tc - min tc (length xs)) None)"
proof -
  define k where "k = min tc (length xs)"
  have lk: "length (take k xs) = k" by (simp add: k_def)
  have "checked_copy_construct_range (allocate tc) 0 tc xs =
      Some (0 + min (tc - 0) (length xs), drop (min (tc - 0) (length xs)) xs,
            overwrite (allocate tc) 0 (map Some (take (min (tc - 0) (length xs)) xs)))"
    by (intro checked_copy_construct_range_eq) (simp_all add: allocate_def)
  moreover have "overwrite (allocate tc) 0 (map Some (take k xs)) =
      map Some (take k xs) @ replicate (tc - k) None"
    using overwrite_allocate[of 0 "map Some (take k xs)" tc] lk by (simp add: k_def)
  ultimately show ?thesis by (simp add: k_def)
qed

lemma insert_range_input_ok:
  assumes "wf_vector v" and "position \<le> m_size v"
  shows "\<exists>r v'. insert_range_input T v position xs = Some (r, v') \<and> wf_vector v' \<and>
           contents v' = take position (contents v) @ xs @ drop position (contents v) \<and>
           m_size v' = m_size v + length xs"
proof (cases "xs = []")
  case True
  then show ?thesis using assms(1) by (simp add: insert_range_input_def)
next
  case xs: False
  define p where "p = position"
  define n where "n = m_size v"
  define c where "c = length (m_data v)"
  obtain A Z R where a: "m_data v = map Some A @ map Some Z @ R"
    and lA: "length A = p" and lZ: "length Z = n - p"
    and cA: "take p (contents v) = A" and cZ: "drop p (contents v) = Z"
    and lR: "length R = c - n"
    using wf_value_parts[OF assms] unfolding p_def n_def c_def by blast
  have pn: "p \<le> n" using assms(2) by (simp add: p_def n_def)
  have nc: "n \<le> c" using assms(1) by (simp add: wf_vector_def n_def c_def)
  have nAZ: "m_size v = length A + length Z" using lA lZ pn by (simp add: n_def)
  have ie: "iend v = n" by (simp add: iend_def n_def)
  have s: "iend v - position = length Z" using lZ by (simp add: ie p_def)
  have rem: "remainder v = length R"
    using lR by (simp add: remainder_def available_def c_def n_def)
  have cap: "capacity v = c" by (simp add: capacity_def c_def)
  have goal: ?thesis
    if r: "insert_range_input T v position xs = Some (position, v')"
      and wf: "wf_vector v'" and ct: "contents v' = A @ xs @ Z"
      and sz: "m_size v' = m_size v + length xs" for v'
    using that cA cZ unfolding p_def by blast
  show ?thesis
  proof (cases "full v")
    case True
    have a0: "m_data v = map Some A @ map Some Z @ map Some [] @ R" using a by simp
    obtain v' where h: "insert_range_input_horrible T v (length A) [] (length ([] :: 'a list))
                (m_size v + length ([] :: 'a list)) xs = Some (length A, v')"
      and wf: "wf_vector v'" and ct: "contents v' = A @ [] @ [] @ xs @ Z"
      and sz: "m_size v' = m_size v + length ([] :: 'a list) + length ([] :: 'a list) + length xs"
      using insert_range_input_horrible_ok[OF a0 nAZ _ xs, of "[]" "[]" "[]" T] by auto
    have "insert_range_input T v position xs = Some (position, v')"
      unfolding insert_range_input_full[OF xs True] using h lA
      by (simp add: p_def iend_def)
    then show ?thesis using wf ct sz by (intro goal[of v']) simp_all
  next
    case nf: False
    then have Rpos: "0 < length R" using lR nc by (simp add: full_def n_def c_def)
    define tc where "tc = (if iend v - position < remainder v then iend v - position
                           else remainder v)"
    define k where "k = min tc (length xs)"
    define tmp where "tmp = take k xs"
    define TR where "TR = (replicate (tc - k) None :: 'a storage)"
    define TD where "TD = map Some tmp @ TR"
    have lt: "length tmp = k" by (simp add: tmp_def k_def)
    have ccr: "checked_copy_construct_range (allocate tc) 0 tc xs = Some (k, drop k xs, TD)"
      using temp_buffer_fill[of tc xs] by (simp add: k_def tmp_def TD_def TR_def)
    have tcR: "tc \<le> length R" by (simp add: tc_def rem s)
    obtain ot where ot: "destroy_range T TD 0 k = Some ot"
      using destroy_range_lists[of TD "[]" tmp TR 0 k T] lt by (auto simp: TD_def)
    show ?thesis
    proof (cases "drop k xs = []")
      case True
      then have kx: "k = length xs" and tx: "tmp = xs" by (simp_all add: k_def tmp_def)
      have tk: "map the (take k TD) = xs" using lt by (simp add: TD_def tx comp_def)
      have room: "m_size v + length xs \<le> length (m_data v)"
        using tcR lR nc kx by (simp add: k_def n_def c_def)
      obtain u v' where f: "insert_range_forward T v position xs = Some (u, v')"
        and wf: "wf_vector v'"
        and ct: "contents v' = take position (contents v) @ xs @ drop position (contents v)"
        and sz: "m_size v' = m_size v + length xs"
        using insert_range_forward_room[OF assms xs room, of T] by blast
      have "insert_range_input T v position xs = Some (position, v')"
        using insert_range_input_early[OF xs nf tc_def ccr[unfolded True] f[folded tk] ot] .
      then show ?thesis using wf ct sz by blast
    next
      case first: False
      then have ktc: "k = tc" and tcx: "tc < length xs" by (simp_all add: k_def)
      have TR: "TR = []" by (simp add: TR_def ktc)
      have xs_split: "xs = tmp @ drop k xs" by (simp add: tmp_def)
      show ?thesis
      proof (cases "iend v - position < remainder v")
        case False
        then have tcr: "tc = remainder v" by (simp add: tc_def)
        have a0: "m_data v = map Some A @ map Some Z @ map Some [] @ R" using a by simp
        obtain v' where h: "insert_range_input_horrible T v (length A) TD (length tmp)
                (m_size v + length ([] :: 'a list)) (drop k xs) = Some (length A, v')"
          and wf: "wf_vector v'" and ct: "contents v' = A @ tmp @ [] @ drop k xs @ Z"
          and sz: "m_size v' = m_size v + length tmp + length ([] :: 'a list) +
                     length (drop k xs)"
          using insert_range_input_horrible_ok[OF a0 nAZ TD_def first, of T] by auto
        have "insert_range_input T v position xs = Some (position, v')"
          unfolding insert_range_input_temp_horrible[OF xs nf False ccr[unfolded tcr] first]
          using h lA lt by (simp add: p_def iend_def)
        moreover have "contents v' = A @ xs @ Z" using ct xs_split by simp
        moreover have "m_size v' = m_size v + length xs"
          using sz lt tcx by (simp add: ktc)
        ultimately show ?thesis using wf by (intro goal[of v'])
      next
        case True
        then have tcs: "tc = iend v - position" by (simp add: tc_def)
        have sR: "length Z < length R" using True by (simp add: s rem)
        define first where "first = drop k xs"
        define k2 where "k2 = min (c - length Z - n) (length first)"
        define fb where "fb = take k2 first"
        define d where "d = map Some A @ map Some Z @ map Some fb @ drop k2 R"
        have lfb: "length fb = k2" by (simp add: fb_def k2_def)
        have k2R: "k2 \<le> length R" using lR by (simp add: k2_def)
        have k2c: "n + k2 + length Z \<le> c" using sR lR nc by (simp add: k2_def)
        have ld: "length d = c" using k2R lfb lR nc nAZ by (simp add: d_def n_def)
        have ov: "overwrite (m_data v) n (map Some fb) = d"
          unfolding d_def
          using overwrite_segment[of "take k2 R" "map Some fb" "map Some A @ map Some Z" n
              "drop k2 R"] k2R lfb nAZ a by (simp add: n_def)
        have fbk0: "checked_copy_construct_range (m_data v) n (c - length Z) first =
                     Some (n + k2, drop k2 first, d)"
          using checked_copy_construct_range_eq[of n "c - length Z" "m_data v" first]
            sR lR nc ov
          by (simp add: k2_def fb_def c_def)
        have e: "capacity v - (n - position) = c - length Z"
          using s by (simp add: cap ie)
        have fbk: "checked_copy_construct_range (m_data v) (iend v)
                     (capacity v - (iend v - position)) first = Some (n + k2, drop k2 first, d)"
          unfolding ie e using fbk0 .
        have fne: "first \<noteq> []" using \<open>drop k xs \<noteq> []\<close> by (simp add: first_def)
        have ltmp: "length tmp = length Z" using lt ktc tcs s by simp
        note ccr' = ccr[unfolded tcs, folded first_def]
        show ?thesis
        proof (cases "drop k2 first = []")
          case used: True
          then have fbf: "fb = first" by (simp add: fb_def)
          define rest where "rest = drop (length Z) (drop k2 R)"
          define d1 where "d1 = map Some A @ map Some Z @ map Some fb @ map Some Z @ rest"
          define d2 where "d2 = map Some A @ map Some tmp @ map Some fb @ map Some Z @ rest"
          have init: "\<forall>i. p \<le> i \<and> i < p + length Z \<longrightarrow> d ! i \<noteq> None"
            using lA by (auto simp: d_def nth_append)
          have tz: "take (length Z) (drop p d) = map Some Z"
            using lA by (simp add: d_def)
          have o1: "overwrite d (n + k2) (map Some Z) = d1"
            using overwrite_into_tail[of "map Some A @ map Some Z @ map Some fb" "n + k2"
                "map Some Z" "drop k2 R"] k2c lR lfb nAZ nc
            by (simp add: d_def d1_def rest_def n_def)
          have mv1: "move_construct_range_n_same d (n + k2) position (iend v - position) =
              Some (n + k2 + length Z, p + length Z, d1)"
            using move_construct_range_n_same_eq[of p "length Z" "n + k2" d] init k2c ld pn lZ
            unfolding s tz o1 by (simp add: p_def)
          have ld1: "length d1 = c"
            using k2c lR lfb nAZ nc by (simp add: d1_def rest_def n_def)
          have o2: "overwrite d1 p (map Some tmp) = d2"
            unfolding d1_def d2_def
            using overwrite_segment[of "map Some Z" "map Some tmp" "map Some A" p
                "map Some fb @ map Some Z @ rest"] ltmp lA by simp
          have tt: "take (length Z) (drop 0 TD) = map Some tmp"
            using ltmp by (simp add: TD_def)
          have it: "\<forall>i. 0 \<le> i \<and> i < 0 + length Z \<longrightarrow> TD ! i \<noteq> None"
            using ltmp by (auto simp: TD_def nth_append)
          have mv2: "move_construct_range_n d1 position TD 0 (iend v - position) =
              Some (p + length Z, 0 + length Z, d2)"
            using move_construct_range_n_eq[of 0 "length Z" TD p d1] it ltmp ld1 pn lZ nc
            unfolding s tt o2 by (simp add: p_def TD_def)
          have r: "insert_range_input T v position xs =
              Some (position, v\<lparr>m_data := d2, m_size := n + k2 + length Z\<rparr>)"
            using insert_range_input_fallback_done[OF xs nf True ccr' fne
                fbk[unfolded used] mv1 mv2 ot] .
          have d2: "d2 = map Some (A @ tmp @ fb @ Z) @ rest" by (simp add: d2_def)
          have sz: "n + k2 + length Z = length (A @ tmp @ fb @ Z)"
            using nAZ lfb ltmp by (simp add: n_def)
          define v' where "v' = \<lparr>m_data = map Some (A @ tmp @ fb @ Z) @ rest,
                                 m_size = length (A @ tmp @ fb @ Z)\<rparr>"
          have ve: "v\<lparr>m_data := d2, m_size := n + k2 + length Z\<rparr> = v'"
            unfolding d2 sz v'_def by simp
          have x: "xs = tmp @ fb" using xs_split fbf by (simp add: first_def)
          have wf: "wf_vector v'" unfolding v'_def by (rule vector_of_list)
          have ct: "contents v' = A @ xs @ Z"
            unfolding v'_def vector_of_list x by simp
          have sz': "m_size v' = m_size v + length xs"
            using nAZ ltmp lfb by (simp add: v'_def x)
          show ?thesis
            using r[unfolded ve] wf ct sz' by (intro goal[of v'])
        next
          case left: False
          define w where "w = v\<lparr>m_data := d\<rparr>"
          have aw: "m_data w = map Some A @ map Some Z @ map Some fb @ drop k2 R"
            by (simp add: w_def d_def)
          have nw: "m_size w = length A + length Z" using nAZ by (simp add: w_def)
          obtain v' where h: "insert_range_input_horrible T w (length A) TD (length tmp)
                  (m_size w + length fb) (drop k2 first) = Some (length A, v')"
            and wf: "wf_vector v'"
            and ct: "contents v' = A @ tmp @ fb @ drop k2 first @ Z"
            and sz: "m_size v' = m_size w + length tmp + length fb + length (drop k2 first)"
            using insert_range_input_horrible_ok[OF aw nw TD_def left, of T] by auto
          have "insert_range_input T v position xs = Some (position, v')"
            unfolding insert_range_input_fallback_horrible[OF xs nf True ccr' fne fbk left]
            using h lA lt lfb by (simp add: p_def w_def n_def)
          moreover have "contents v' = A @ xs @ Z"
          proof -
            have "fb @ drop k2 first = first" by (simp add: fb_def)
            then have "xs = tmp @ fb @ drop k2 first" using xs_split by (simp add: first_def)
            then show ?thesis using ct by simp
          qed
          moreover have "m_size v' = m_size v + length xs"
            using sz lt lfb tcx by (simp add: w_def ktc k2_def first_def)
          ultimately show ?thesis using wf by (intro goal[of v'])
        qed
      qed
    qed
  qed
qed

text \<open>
  C1. For a vector whose element sequence is \<open>P @ S\<close> and a single-pass source \<open>xs\<close> (a list
  of values, so not aliasing the vector), \<open>insert\<close> at the position after \<open>P\<close> consumes
  \<open>xs\<close> and leaves exactly \<open>P @ xs @ S\<close>, the elements of \<open>xs\<close> in their input order, and
  the size \<open>|P| + |xs| + |S|\<close>. This holds on every path: appending into free capacity,
  the temporary buffer, the fallback into free capacity, and \<open>insert_horrible\<close> with any
  number of chained temporary arrays.
\<close>

theorem insert_single_pass_range:
  assumes "wf_vector v" and "contents v = P @ S"
  shows "\<exists>r v'. insert_input T v (length P) xs = Some (r, v') \<and> wf_vector v' \<and>
           contents v' = P @ xs @ S \<and> size_v v' = length P + length xs + length S"
proof -
  have len: "length (contents v) = m_size v"
    using assms(1) by (simp add: contents_def wf_vector_def)
  then have n: "m_size v = length P + length S" using assms(2) by simp
  show ?thesis
  proof (cases "length P = iend v")
    case True
    then have S: "S = []" using n by (simp add: iend_def)
    obtain p v' where "append_range_input T v xs = Some (p, v')" and "wf_vector v'"
      and "contents v' = contents v @ xs" and "m_size v' = m_size v + length xs"
      using append_range_input_ok[OF assms(1), of T xs] by blast
    then show ?thesis
      using True assms(2) n by (simp add: insert_input_def S size_v_def)
  next
    case False
    have pl: "length P \<le> m_size v" using n by simp
    obtain r v' where "insert_range_input T v (length P) xs = Some (r, v')" and "wf_vector v'"
      and "contents v' = take (length P) (contents v) @ xs @ drop (length P) (contents v)"
      and "m_size v' = m_size v + length xs"
      using insert_range_input_ok[OF assms(1) pl, of T xs] by blast
    then show ?thesis
      using False assms(2) n by (simp add: insert_input_def size_v_def Let_def)
  qed
qed

theorem insert_single_pass_range_witness:
  "\<exists>r v'. insert_input \<lparr>value_has_trivial_destroy = False, use_simple_insert = True\<rparr>
            \<lparr>m_data = [Some 1, Some 2, None], m_size = 2\<rparr> 1 [7, 8, 9 :: int] = Some (r, v') \<and>
          contents v' = [1, 7, 8, 9, 2] \<and> size_v v' = 5"
  using insert_single_pass_range[of "\<lparr>m_data = [Some 1, Some 2, None], m_size = 2\<rparr>"
      "[1 :: int]" "[2]" "\<lparr>value_has_trivial_destroy = False, use_simple_insert = True\<rparr>"
      "[7, 8, 9]"]
  by (auto simp: wf_vector_def contents_def)

end
